theory Spec2Isabelle
  imports Main "HOL-Library.AList" "HOL-Library.Sublist"
begin

section \<open>csvsql: a shallow embedding of \<open>CSVSQL.main\<close>\<close>

text \<open>
  The embedding follows \<open>src/csvkit/utilities/csvsql.py\<close>. Every call that leaves
  \<open>main\<close> (opening an input, the inference collaborator, the database, the output
  stream) is logged as an event, in the order in which the code makes it, and may raise:
  what such a call returns or raises is a parameter of the model (the \<open>world\<close>), and may
  depend on everything that happened before. A run returns the exception that ended it
  (\<open>None\<close> for a normal return) together with the events it caused.
\<close>

subsection \<open>Data\<close>

text \<open>Exceptions. \<open>ConfigurationError\<close> is \<open>self.argparser.error(message)\<close>.\<close>

datatype error =
    ConfigurationError string
  | ImportError string
  | AttributeError
  | OtherError string

text \<open>The parsed command line (\<open>self.args\<close>); an absent option is \<open>None\<close>.\<close>

record args =
  input_paths :: "string list"
  dialect :: "string option"
  connection_string :: "string option"
  query :: "string option"
  insert :: bool
  table_names :: "string option"
  no_constraints :: bool
  no_create :: bool
  blanks :: bool
  db_schema :: "string option"
  sniff_limit :: "int option"
  no_inference :: bool
  no_header_row :: bool

text \<open>An input stream: \<open>sys.stdin\<close>, or a file object with its \<open>name\<close>.\<close>

datatype handle = Stdin | File string

type_synonym row = "string list"

text \<open>
  What the code uses of a \<open>table.Table\<close>: its truth value (\<open>if csv_table:\<close>),
  \<open>count_rows()\<close>, \<open>headers()\<close> and \<open>to_rows()\<close>.
\<close>

record csv_table =
  truthy :: bool
  count_rows :: nat
  headers :: "string list"
  to_rows :: "row list"

text \<open>
  What the code uses of the value of \<open>connection.execute(q)\<close>: \<open>rows._metadata.keys\<close>
  (\<open>None\<close> when that attribute access raises \<open>AttributeError\<close>) and the rows it iterates.
\<close>

record result_proxy =
  metadata_keys :: "row option"
  fetch :: "row list"

datatype event =
    OpenInput string "error + handle"
  | GetConnection string
  | EngineConnect
  | Begin
  | FromCsv handle string "error + csv_table"
  | CloseInput handle
  | MakeTable string bool "string option"
  | CreateTable string
  | InsertRows string "(string \<times> string) list list"
  | WriteOutput string
  | Execute string "error + result_proxy"
  | WriteRow row
  | Commit
  | Rollback
  | CloseConnection

text \<open>
  The collaborators, none of which is part of \<open>csvsql.py\<close>. Each takes the events so
  far. \<open>raises\<close> says whether a call that returns nothing of interest raises.
  \<open>from_csv\<close> takes the stream, the name and the four options that \<open>main\<close> computes
  from \<open>args\<close>; \<open>reader_kwargs\<close> and \<open>writer_kwargs\<close> belong to the base class, do
  not change during a run, and are left out.
\<close>

record world =
  open_input_file :: "event list \<Rightarrow> string \<Rightarrow> error + handle"
  from_csv :: "event list \<Rightarrow> handle \<Rightarrow> string \<Rightarrow> int option \<Rightarrow> bool \<Rightarrow> bool \<Rightarrow> bool \<Rightarrow> error + csv_table"
  execute :: "event list \<Rightarrow> string \<Rightarrow> error + result_proxy"
  make_create_table_statement :: "csv_table \<Rightarrow> string \<Rightarrow> bool \<Rightarrow> string option \<Rightarrow> string"
  raises :: "event list \<Rightarrow> event \<Rightarrow> error option"

type_synonym outcome = "error option \<times> event list"

subsection \<open>Python and library primitives\<close>

text \<open>The truth value of an optional string: \<open>None\<close> and \<open>''\<close> are false.\<close>

definition truthy_str :: "string option \<Rightarrow> bool" where
  "truthy_str s = (case s of None \<Rightarrow> False | Some x \<Rightarrow> x \<noteq> [])"

text \<open>\<open>s.split(c)\<close> for a one-character separator.\<close>

fun split_str :: "char \<Rightarrow> string \<Rightarrow> string list" where
  "split_str c [] = [[]]"
| "split_str c (x # xs) =
     (if x = c then [] # split_str c xs
      else (case split_str c xs of
              [] \<Rightarrow> [[x]]
            | y # ys \<Rightarrow> (x # y) # ys))"

text \<open>\<open>p.rfind(c)\<close>, with \<open>-1\<close> when \<open>c\<close> does not occur.\<close>

definition rfind :: "string \<Rightarrow> char \<Rightarrow> int" where
  "rfind p c = (if c \<in> set p then int (length p) - 1 - int (length (takeWhile (\<lambda>x. x \<noteq> c) (rev p))) else -1)"

text \<open>\<open>os.path.split(p)[1]\<close> (posixpath): what follows the last slash.\<close>

definition os_path_split_tail :: "string \<Rightarrow> string" where
  "os_path_split_tail p = drop (nat (rfind p (CHR ''/'') + 1)) p"

text \<open>
  \<open>os.path.splitext(p)[0]\<close> (genericpath): the extension starts at the last dot, unless
  that dot is not after the last slash or only dots lie between the two.
\<close>

definition os_path_splitext_root :: "string \<Rightarrow> string" where
  "os_path_splitext_root p =
     (let sepIndex = rfind p (CHR ''/''); dotIndex = rfind p (CHR ''.'')
      in if dotIndex > sepIndex
            \<and> (\<exists>c \<in> set (take (nat (dotIndex - (sepIndex + 1))) (drop (nat (sepIndex + 1)) p)). c \<noteq> CHR ''.'')
         then take (nat dotIndex) p else p)"

text \<open>\<open>dict(pairs)\<close>, as an association list: a later pair replaces an earlier one with its key.\<close>

definition dict :: "(string \<times> string) list \<Rightarrow> (string \<times> string) list" where
  "dict kvs = foldl (\<lambda>d (k, v). AList.update k v d) [] kvs"

subsection \<open>Sequencing\<close>

text \<open>A call that returns nothing: it is logged, and raises if the world says so.\<close>

definition call :: "world \<Rightarrow> event \<Rightarrow> event list \<Rightarrow> outcome" where
  "call w ev tr = (raises w tr ev, tr @ [ev])"

text \<open>Statement sequencing: an exception ends the run where it is raised.\<close>

definition and_then :: "outcome \<Rightarrow> (event list \<Rightarrow> outcome) \<Rightarrow> outcome" where
  "and_then r k = (case r of (Some e, tr) \<Rightarrow> (Some e, tr) | (None, tr) \<Rightarrow> k tr)"

subsection \<open>\<open>main\<close>, lines 49 to 52: opening the inputs\<close>

fun open_input_files :: "world \<Rightarrow> string list \<Rightarrow> event list \<Rightarrow> (error + handle list) \<times> event list" where
  "open_input_files w [] tr = (Inr [], tr)"
| "open_input_files w (path # paths) tr =
     (let r = open_input_file w tr path; tr' = tr @ [OpenInput path r]
      in case r of
           Inl e \<Rightarrow> (Inl e, tr')
         | Inr f \<Rightarrow>
             (case open_input_files w paths tr' of
                (Inl e, tr'') \<Rightarrow> (Inl e, tr'')
              | (Inr fs, tr'') \<Rightarrow> (Inr (f # fs), tr'')))"

subsection \<open>Lines 54 to 71: names and option checks\<close>

definition explicit_names :: "args \<Rightarrow> string list" where
  "explicit_names a =
     (case table_names a of
        None \<Rightarrow> []
      | Some s \<Rightarrow> if s \<noteq> [] then split_str (CHR '','') s else [])"

text \<open>Lines 60 to 62: the connection string and \<open>do_insert\<close> after the substitution.\<close>

definition effective :: "args \<Rightarrow> string option \<times> bool" where
  "effective a =
     (if truthy_str (query a) \<and> \<not> truthy_str (connection_string a)
      then (Some ''sqlite:///:memory:'', True)
      else (connection_string a, insert a))"

definition check_flags :: "args \<Rightarrow> string option \<Rightarrow> bool \<Rightarrow> error option" where
  "check_flags a cs do_insert =
     (if truthy_str (dialect a) \<and> truthy_str cs
      then Some (ConfigurationError ''The --dialect option is only valid when neither --db nor --query are specified.'')
      else if do_insert \<and> \<not> truthy_str cs
      then Some (ConfigurationError ''The --insert option is only valid when either --db or --query is specified.'')
      else if no_create a \<and> \<not> do_insert
      then Some (ConfigurationError ''The --no-create option is only valid --insert is also specified.'')
      else None)"

subsection \<open>Lines 74 to 80: the connection and its transaction\<close>

definition backend_message :: string where
  "backend_message =
     ''You don't appear to have the necessary database backend installed for connection string you're trying to use. Available backends include:''
     @ [CHR 0x0A, CHR 0x0A] @ ''Postgresql:'' @ [CHR 0x09] @ ''pip install psycopg2''
     @ [CHR 0x0A] @ ''MySQL:'' @ [CHR 0x09, CHR 0x09] @ ''pip install MySQL-python''
     @ [CHR 0x0A, CHR 0x0A]
     @ ''For details on connection strings and other backends, please see the SQLAlchemy documentation on dialects at: ''
     @ [CHR 0x0A, CHR 0x0A] @ ''http://www.sqlalchemy.org/docs/dialects/'' @ [CHR 0x0A, CHR 0x0A]"

definition open_connection :: "world \<Rightarrow> string \<Rightarrow> event list \<Rightarrow> outcome" where
  "open_connection w cs tr =
     (case call w (GetConnection cs) tr of
        (Some (ImportError m), tr1) \<Rightarrow> (Some (ImportError backend_message), tr1)
      | (Some e, tr1) \<Rightarrow> (Some e, tr1)
      | (None, tr1) \<Rightarrow>
          and_then (call w EngineConnect tr1) (\<lambda>tr2. call w Begin tr2))"

subsection \<open>Lines 82 to 128: the loop over the inputs\<close>

text \<open>Lines 83 to 91: the next explicit name, or the fallback.\<close>

fun resolve_name :: "string list \<Rightarrow> handle \<Rightarrow> string \<times> string list" where
  "resolve_name (n # ns) f = (n, ns)"
| "resolve_name [] Stdin = (''stdin'', [])"
| "resolve_name [] (File name) = (os_path_splitext_root (os_path_split_tail name), [])"

text \<open>Lines 105 to 128: what is done with one inferred table.\<close>

definition emit :: "world \<Rightarrow> args \<Rightarrow> string option \<Rightarrow> bool \<Rightarrow> csv_table \<Rightarrow> string \<Rightarrow> event list \<Rightarrow> outcome" where
  "emit w a cs do_insert t table_name tr =
     (if truthy t then
        (if truthy_str cs then
           and_then (call w (MakeTable table_name (no_constraints a) (db_schema a)) tr) (\<lambda>tr1.
           and_then (if \<not> no_create a then call w (CreateTable table_name) tr1 else (None, tr1)) (\<lambda>tr2.
           if do_insert \<and> count_rows t > 0
           then call w (InsertRows table_name (map (\<lambda>r. dict (zip (headers t) r)) (to_rows t))) tr2
           else (None, tr2)))
         else
           and_then (call w (MakeTable table_name (no_constraints a) None) tr) (\<lambda>tr1.
           call w (WriteOutput (make_create_table_statement w t table_name (no_constraints a) (dialect a) @ [CHR 0x0A])) tr1))
      else (None, tr))"

fun ingest :: "world \<Rightarrow> args \<Rightarrow> string option \<Rightarrow> bool \<Rightarrow> handle list \<Rightarrow> string list \<Rightarrow> event list \<Rightarrow> outcome" where
  "ingest w a cs do_insert [] names tr = (None, tr)"
| "ingest w a cs do_insert (f # fs) names tr =
     (case resolve_name names f of
        (table_name, names') \<Rightarrow>
          (let r = from_csv w tr f table_name (sniff_limit a) (\<not> blanks a) (\<not> no_inference a) (no_header_row a);
               tr1 = tr @ [FromCsv f table_name r]
           in case r of
                Inl e \<Rightarrow> (Some e, tr1)
              | Inr csv_table \<Rightarrow>
                  (case call w (CloseInput f) tr1 of
                     (Some e, tr2) \<Rightarrow> (Some e, tr2)
                   | (None, tr2) \<Rightarrow>
                       (case emit w a cs do_insert csv_table table_name tr2 of
                          (Some e, tr3) \<Rightarrow> (Some e, tr3)
                        | (None, tr3) \<Rightarrow> ingest w a cs do_insert fs names' tr3))))"

subsection \<open>Lines 130 to 147: the queries\<close>

text \<open>Lines 134 to 138; \<open>rows\<close> is \<open>None\<close> until a statement has been executed.\<close>

fun execute_queries :: "world \<Rightarrow> string list \<Rightarrow> result_proxy option \<Rightarrow> event list \<Rightarrow> (error + result_proxy option) \<times> event list" where
  "execute_queries w [] rows tr = (Inr rows, tr)"
| "execute_queries w (q # queries) rows tr =
     (if q \<noteq> [] then
        (let r = execute w tr q; tr1 = tr @ [Execute q r]
         in case r of
              Inl e \<Rightarrow> (Inl e, tr1)
            | Inr rows' \<Rightarrow> execute_queries w queries (Some rows') tr1)
      else execute_queries w queries rows tr)"

fun write_rows :: "world \<Rightarrow> row list \<Rightarrow> event list \<Rightarrow> outcome" where
  "write_rows w [] tr = (None, tr)"
| "write_rows w (r # rs) tr =
     (case call w (WriteRow r) tr of
        (Some e, tr1) \<Rightarrow> (Some e, tr1)
      | (None, tr1) \<Rightarrow> write_rows w rs tr1)"

text \<open>Lines 141 to 147: \<open>AttributeError\<close> is swallowed, anything else propagates.\<close>

definition write_result :: "world \<Rightarrow> result_proxy option \<Rightarrow> event list \<Rightarrow> outcome" where
  "write_result w rows tr =
     (case rows of
        None \<Rightarrow> (None, tr)
      | Some rp \<Rightarrow>
          (case metadata_keys rp of
             None \<Rightarrow> (None, tr)
           | Some ks \<Rightarrow>
               (case write_rows w (ks # fetch rp) tr of
                  (Some AttributeError, tr1) \<Rightarrow> (None, tr1)
                | r \<Rightarrow> r)))"

definition run_query :: "world \<Rightarrow> string \<Rightarrow> event list \<Rightarrow> outcome" where
  "run_query w q tr =
     (case execute_queries w (split_str (CHR '';'') q) None tr of
        (Inl e, tr1) \<Rightarrow> (Some e, tr1)
      | (Inr rows, tr1) \<Rightarrow> write_result w rows tr1)"

subsection \<open>\<open>main\<close>\<close>

definition pipeline :: "world \<Rightarrow> args \<Rightarrow> handle list \<Rightarrow> event list \<Rightarrow> outcome" where
  "pipeline w a input_files tr =
     (case effective a of
        (cs, do_insert) \<Rightarrow>
          (case check_flags a cs do_insert of
             Some e \<Rightarrow> (Some e, tr)
           | None \<Rightarrow>
               and_then (case cs of
                           None \<Rightarrow> (None, tr)
                         | Some c \<Rightarrow> if c \<noteq> [] then open_connection w c tr else (None, tr)) (\<lambda>tr1.
               and_then (ingest w a cs do_insert input_files (explicit_names a) tr1) (\<lambda>tr2.
               if truthy_str cs then
                 and_then (case query a of
                             None \<Rightarrow> (None, tr2)
                           | Some q \<Rightarrow> if q \<noteq> [] then run_query w q tr2 else (None, tr2)) (\<lambda>tr3.
                 and_then (call w Commit tr3) (\<lambda>tr4.
                 call w CloseConnection tr4))
               else (None, tr2)))))"

definition main :: "world \<Rightarrow> args \<Rightarrow> outcome" where
  "main w a =
     (case open_input_files w (input_paths a) [] of
        (Inl e, tr) \<Rightarrow> (Some e, tr)
      | (Inr input_files, tr) \<Rightarrow> pipeline w a input_files tr)"

section \<open>Vocabulary of the properties\<close>

subsection \<open>Projections of a run's events\<close>

text \<open>The events of lines 49 to 52 when every path opens: one per path, in order.\<close>

definition opened :: "string list \<Rightarrow> handle list \<Rightarrow> event list" where
  "opened paths fs = map (\<lambda>(p, f). OpenInput p (Inr f)) (zip paths fs)"

fun is_open :: "event \<Rightarrow> bool" where
  "is_open (OpenInput p r) = True"
| "is_open _ = False"

text \<open>
  The option combinations that \<open>main\<close> rejects, on the options as parsed: a dialect
  with a connection target (\<open>--db\<close>, or the one that \<open>--query\<close> brings), \<open>--insert\<close> with
  neither, \<open>--no-create\<close> where no insert is in effect.
\<close>

definition invalid_flags :: "args \<Rightarrow> bool" where
  "invalid_flags a =
     ((truthy_str (dialect a) \<and> (truthy_str (connection_string a) \<or> truthy_str (query a)))
      \<or> (insert a \<and> \<not> truthy_str (connection_string a) \<and> \<not> truthy_str (query a))
      \<or> (no_create a \<and> \<not> insert a \<and> (truthy_str (connection_string a) \<or> \<not> truthy_str (query a))))"

text \<open>The kinds of events: connection set-up, per-table work, query work, end of the transaction.\<close>

fun is_conn :: "event \<Rightarrow> bool" where
  "is_conn (GetConnection c) = True"
| "is_conn EngineConnect = True"
| "is_conn Begin = True"
| "is_conn _ = False"

fun is_table :: "event \<Rightarrow> bool" where
  "is_table (MakeTable n nc s) = True"
| "is_table (CreateTable n) = True"
| "is_table (InsertRows n rs) = True"
| "is_table (WriteOutput s) = True"
| "is_table _ = False"

fun is_query :: "event \<Rightarrow> bool" where
  "is_query (Execute q r) = True"
| "is_query (WriteRow r) = True"
| "is_query _ = False"

fun is_final :: "event \<Rightarrow> bool" where
  "is_final Commit = True"
| "is_final Rollback = True"
| "is_final CloseConnection = True"
| "is_final _ = False"

text \<open>\<open>tr'\<close> is \<open>tr\<close> followed by events that all satisfy \<open>P\<close>.\<close>

definition extends :: "(event \<Rightarrow> bool) \<Rightarrow> event list \<Rightarrow> event list \<Rightarrow> bool" where
  "extends P tr tr' = (\<exists>evs. tr' = tr @ evs \<and> list_all P evs)"

text \<open>What happens to the input handles: opening, reading (by the inference), closing.\<close>

datatype file_op = Opened handle | Read handle | Closed handle

fun file_op_of :: "event \<Rightarrow> file_op list" where
  "file_op_of (OpenInput p (Inr f)) = [Opened f]"
| "file_op_of (FromCsv f n r) = [Read f]"
| "file_op_of (CloseInput f) = [Closed f]"
| "file_op_of _ = []"

definition file_ops :: "event list \<Rightarrow> file_op list" where
  "file_ops tr = concat (map file_op_of tr)"

text \<open>The handles that are open after a sequence of events.\<close>

fun step_open :: "handle list \<Rightarrow> event \<Rightarrow> handle list" where
  "step_open hs (OpenInput p (Inr f)) = hs @ [f]"
| "step_open hs (CloseInput f) = remove1 f hs"
| "step_open hs _ = hs"

definition open_handles :: "event list \<Rightarrow> handle list" where
  "open_handles tr = foldl step_open [] tr"

text \<open>
  Every inference that returns is followed at once by the closing of its stream, and an
  inference that raises is the last event.
\<close>

fun closes_follow :: "event list \<Rightarrow> bool" where
  "closes_follow [] = True"
| "closes_follow (FromCsv f n (Inr t) # evs) =
     (case evs of [] \<Rightarrow> False | ev # evs' \<Rightarrow> ev = CloseInput f \<and> closes_follow evs')"
| "closes_follow (FromCsv f n (Inl e) # evs) = (evs = [])"
| "closes_follow (ev # evs) = closes_follow evs"

text \<open>The calls of the inference: the handle and the table name it is given.\<close>

fun from_csv_call :: "event \<Rightarrow> (handle \<times> string) list" where
  "from_csv_call (FromCsv f n r) = [(f, n)]"
| "from_csv_call _ = []"

definition from_csv_calls :: "event list \<Rightarrow> (handle \<times> string) list" where
  "from_csv_calls tr = concat (map from_csv_call tr)"

fun is_from_csv :: "event \<Rightarrow> bool" where
  "is_from_csv (FromCsv f n r) = True"
| "is_from_csv _ = False"

text \<open>What is written to the output stream.\<close>

fun is_written :: "event \<Rightarrow> bool" where
  "is_written (WriteOutput s) = True"
| "is_written (WriteRow r) = True"
| "is_written _ = False"

definition written :: "event list \<Rightarrow> event list" where
  "written tr = filter is_written tr"

text \<open>The name of a source when the explicit names are used up (lines 87 to 91).\<close>

definition fallback_name :: "handle \<Rightarrow> string" where
  "fallback_name f = fst (resolve_name [] f)"

text \<open>
  The names of the sources as the specification gives them: the explicit names in their
  order for the first sources, the fallback names for the others.
\<close>

definition assigned_names :: "string list \<Rightarrow> handle list \<Rightarrow> string list" where
  "assigned_names names fs = take (length fs) names @ map fallback_name (drop (length names) fs)"

text \<open>The strings joined with a separator character between them.\<close>

fun join_str :: "char \<Rightarrow> string list \<Rightarrow> string" where
  "join_str c [] = []"
| "join_str c [x] = x"
| "join_str c (x # y # ys) = x @ c # join_str c (y # ys)"

text \<open>The events of lines 105 to 128 for one inferred table, when no call raises.\<close>

definition table_events :: "world \<Rightarrow> args \<Rightarrow> string option \<Rightarrow> bool \<Rightarrow> csv_table \<Rightarrow> string \<Rightarrow> event list" where
  "table_events w a cs do_insert t n =
     (if \<not> truthy t then []
      else if truthy_str cs then
        [MakeTable n (no_constraints a) (db_schema a)]
        @ (if no_create a then [] else [CreateTable n])
        @ (if do_insert \<and> 0 < count_rows t
           then [InsertRows n (map (\<lambda>r. dict (zip (headers t) r)) (to_rows t))] else [])
      else
        [MakeTable n (no_constraints a) None,
         WriteOutput (make_create_table_statement w t n (no_constraints a) (dialect a) @ [CHR 0x0A])])"

text \<open>The events of one pass of the loop of lines 82 to 128, when no call raises.\<close>

definition source_events :: "world \<Rightarrow> args \<Rightarrow> string option \<Rightarrow> bool \<Rightarrow> handle \<times> string \<times> csv_table \<Rightarrow> event list" where
  "source_events w a cs do_insert x =
     (case x of (f, n, t) \<Rightarrow> [FromCsv f n (Inr t), CloseInput f] @ table_events w a cs do_insert t n)"

text \<open>The rows that lines 141 to 147 write for the value of \<open>rows\<close>: the header, then the records.\<close>

definition rendering :: "result_proxy option \<Rightarrow> row list" where
  "rendering rows =
     (case rows of
        None \<Rightarrow> []
      | Some rp \<Rightarrow> (case metadata_keys rp of None \<Rightarrow> [] | Some ks \<Rightarrow> ks # fetch rp))"

subsection \<open>Concrete inputs\<close>

text \<open>
  A world in which every path opens (\<open>-\<close> as standard input), \<open>empty.csv\<close> has no
  columns, \<open>bad.csv\<close> makes the inference raise, any other input has one column and one
  row, \<open>SELECT 1\<close> returns one row and any other statement no result set, and no other
  call raises.
\<close>

definition world0 :: world where
  "world0 = \<lparr>
     open_input_file = (\<lambda>tr p. if p = ''-'' then Inr Stdin else Inr (File p)),
     from_csv = (\<lambda>tr f n sl bn it nh.
        if f = File ''empty.csv'' then Inr \<lparr>truthy = False, count_rows = 0, headers = [], to_rows = []\<rparr>
        else if f = File ''bad.csv'' then Inl (OtherError ''DecodingError'')
        else Inr \<lparr>truthy = True, count_rows = 1, headers = [''id''], to_rows = [[''1'']]\<rparr>),
     execute = (\<lambda>tr q.
        if q = ''SELECT 1'' then Inr \<lparr>metadata_keys = Some [''1''], fetch = [[''1'']]\<rparr>
        else Inr \<lparr>metadata_keys = None, fetch = []\<rparr>),
     make_create_table_statement = (\<lambda>t n nc d. ''CREATE TABLE '' @ n @ '' (id INTEGER);''),
     raises = (\<lambda>tr ev. None)\<rparr>"

text \<open>The same world, except that \<open>connection.close()\<close> raises.\<close>

definition world_close_fails :: world where
  "world_close_fails =
     world0\<lparr>raises := (\<lambda>tr ev. if ev = CloseConnection then Some (OtherError ''OperationalError'') else None)\<rparr>"

text \<open>The same world, except that \<open>missing.csv\<close> does not open.\<close>

definition world_missing :: world where
  "world_missing =
     world0\<lparr>open_input_file := (\<lambda>tr p. if p = ''missing.csv'' then Inl (OtherError ''IOError'')
                                         else if p = ''-'' then Inr Stdin else Inr (File p))\<rparr>"

text \<open>The inferred table of an ordinary input in \<open>world0\<close>.\<close>

definition table1 :: csv_table where
  "table1 = \<lparr>truthy = True, count_rows = 1, headers = [''id''], to_rows = [[''1'']]\<rparr>"

text \<open>The command line with no option and no path (the path defaults to \<open>-\<close>).\<close>

definition args0 :: args where
  "args0 = \<lparr>input_paths = [''-''], dialect = None, connection_string = None, query = None,
     insert = False, table_names = None, no_constraints = False, no_create = False,
     blanks = False, db_schema = None, sniff_limit = None, no_inference = False,
     no_header_row = False\<rparr>"

lemmas run_defs =
  main_def pipeline_def effective_def check_flags_def explicit_names_def truthy_str_def
  open_connection_def emit_def run_query_def write_result_def call_def and_then_def
  world0_def args0_def table1_def Let_def dict_def
  os_path_split_tail_def os_path_splitext_root_def rfind_def

section \<open>Opening the inputs and checking the options\<close>

lemma open_input_files_ok:
  "open_input_files w ps tr = (Inr fs, tr') \<Longrightarrow> length fs = length ps \<and> tr' = tr @ opened ps fs"
proof (induction ps arbitrary: tr fs tr')
  case Nil
  then show ?case by (simp add: opened_def)
next
  case (Cons p ps)
  from Cons.prems obtain f fs' where f: "open_input_file w tr p = Inr f"
    and rec: "open_input_files w ps (tr @ [OpenInput p (Inr f)]) = (Inr fs', tr')"
    and fs: "fs = f # fs'"
    by (auto simp: Let_def split: sum.splits prod.splits)
  from Cons.IH[OF rec] fs show ?case
    by (simp add: opened_def)
qed

lemma open_input_files_events:
  "open_input_files w ps tr = (r, tr') \<Longrightarrow> \<exists>evs. tr' = tr @ evs \<and> list_all is_open evs"
proof (induction ps arbitrary: tr r tr')
  case Nil
  then show ?case by simp
next
  case (Cons p ps)
  show ?case
  proof (cases "open_input_file w tr p")
    case (Inl e)
    with Cons.prems show ?thesis by auto
  next
    case (Inr f)
    obtain r2 tr2 where rec: "open_input_files w ps (tr @ [OpenInput p (Inr f)]) = (r2, tr2)"
      by (cases "open_input_files w ps (tr @ [OpenInput p (Inr f)])") auto
    from Cons.IH[OF rec] obtain evs
      where evs: "tr2 = (tr @ [OpenInput p (Inr f)]) @ evs" "list_all is_open evs"
      by blast
    from Cons.prems Inr rec have "tr' = tr2" by (auto split: sum.splits)
    with evs show ?thesis by auto
  qed
qed

text \<open>The three checks of lines 64 to 71 reject exactly the combinations of \<open>invalid_flags\<close>.\<close>

lemma check_flags_invalid:
  "invalid_flags a \<longleftrightarrow>
     (\<exists>m. check_flags a (fst (effective a)) (snd (effective a)) = Some (ConfigurationError m))"
  by (auto simp: invalid_flags_def check_flags_def effective_def truthy_str_def)

lemma check_flags_valid:
  "\<not> invalid_flags a \<longleftrightarrow> check_flags a (fst (effective a)) (snd (effective a)) = None"
  by (auto simp: invalid_flags_def check_flags_def effective_def truthy_str_def)

lemma pipeline_invalid:
  "invalid_flags a \<Longrightarrow> \<exists>m. pipeline w a fs tr = (Some (ConfigurationError m), tr)"
  using check_flags_invalid[of a]
  by (auto simp: pipeline_def split: prod.splits)

lemma main_invalid_events:
  assumes "invalid_flags a"
  shows "list_all is_open (snd (main w a))"
proof -
  obtain r tr where o: "open_input_files w (input_paths a) [] = (r, tr)"
    by (cases "open_input_files w (input_paths a) []") auto
  from open_input_files_events[OF o] have tr: "list_all is_open tr" by auto
  from pipeline_invalid[OF assms] have "\<And>fs. snd (pipeline w a fs tr) = tr"
    by (metis snd_conv)
  with o tr show ?thesis by (auto simp: main_def split: sum.splits)
qed




text \<open>
  C4, as stated, fails: \<open>--no-create --query "SELECT 1"\<close> without \<open>--insert\<close> and without
  \<open>--db\<close> is accepted, because line 62 has switched the insert on; the run goes through
  to the commit.
\<close>

theorem no_create_with_query_counterexample:
  "no_create (args0\<lparr>no_create := True, query := Some ''SELECT 1''\<rparr>) \<and>
   \<not> insert (args0\<lparr>no_create := True, query := Some ''SELECT 1''\<rparr>) \<and>
   main world0 (args0\<lparr>no_create := True, query := Some ''SELECT 1''\<rparr>)
   = (None,
      [OpenInput ''-'' (Inr Stdin), GetConnection ''sqlite:///:memory:'', EngineConnect, Begin,
       FromCsv Stdin ''stdin'' (Inr table1), CloseInput Stdin,
       MakeTable ''stdin'' False None, InsertRows ''stdin'' [[(''id'', ''1'')]],
       Execute ''SELECT 1'' (Inr \<lparr>metadata_keys = Some [''1''], fetch = [[''1'']]\<rparr>),
       WriteRow [''1''], WriteRow [''1''], Commit, CloseConnection])"
  by (simp add: run_defs)

text \<open>
  C4, amended: \<open>--no-create\<close> without \<open>--insert\<close>, unless \<open>--query\<close> is given without
  \<open>--db\<close> (which switches the insert on), ends the run before anything is read or any
  connection attempted: with a configuration error when the input paths have all opened
  (lines 49 to 52 run before the checks), with the exception of the opening when a path
  does not open. The error is the one of \<open>--no-create\<close>, or that of \<open>--dialect\<close> when a
  dialect is given together with \<open>--db\<close>.
\<close>

theorem no_create_without_insert:
  assumes "no_create a" and "\<not> insert a"
      and "truthy_str (connection_string a) \<or> \<not> truthy_str (query a)"
  shows "list_all is_open (snd (main w a)) \<and>
         (\<forall>fs tr. open_input_files w (input_paths a) [] = (Inr fs, tr) \<longrightarrow>
            main w a =
              (Some (ConfigurationError
                 (if truthy_str (dialect a) \<and> truthy_str (connection_string a)
                  then ''The --dialect option is only valid when neither --db nor --query are specified.''
                  else ''The --no-create option is only valid --insert is also specified.'')), tr)) \<and>
         (\<forall>e tr. open_input_files w (input_paths a) [] = (Inl e, tr) \<longrightarrow> main w a = (Some e, tr))"
proof (intro conjI allI impI)
  from assms have "invalid_flags a" by (auto simp: invalid_flags_def)
  then show "list_all is_open (snd (main w a))" by (rule main_invalid_events)
next
  fix fs tr
  assume "open_input_files w (input_paths a) [] = (Inr fs, tr)"
  with assms show "main w a =
              (Some (ConfigurationError
                 (if truthy_str (dialect a) \<and> truthy_str (connection_string a)
                  then ''The --dialect option is only valid when neither --db nor --query are specified.''
                  else ''The --no-create option is only valid --insert is also specified.'')), tr)"
    by (auto simp: main_def pipeline_def effective_def check_flags_def)
next
  fix e tr
  assume "open_input_files w (input_paths a) [] = (Inl e, tr)"
  then show "main w a = (Some e, tr)" by (simp add: main_def)
qed

theorem no_create_without_insert_witness:
  "main world0 (args0\<lparr>no_create := True, connection_string := Some ''sqlite:///x.db'',
                       query := Some ''SELECT 1''\<rparr>)
   = (Some (ConfigurationError ''The --no-create option is only valid --insert is also specified.''),
      [OpenInput ''-'' (Inr Stdin)]) \<and>
   main world_missing (args0\<lparr>input_paths := [''a.csv'', ''missing.csv''], no_create := True\<rparr>)
   = (Some (OtherError ''IOError''),
      [OpenInput ''a.csv'' (Inr (File ''a.csv'')),
       OpenInput ''missing.csv'' (Inl (OtherError ''IOError''))])"
proof -
  let ?a = "args0\<lparr>no_create := True, connection_string := Some ''sqlite:///x.db'',
                   query := Some ''SELECT 1''\<rparr>"
  let ?b = "args0\<lparr>input_paths := [''a.csv'', ''missing.csv''], no_create := True\<rparr>"
  have a: "no_create ?a" "\<not> insert ?a" "truthy_str (connection_string ?a) \<or> \<not> truthy_str (query ?a)"
    by (simp_all add: args0_def truthy_str_def)
  have b: "no_create ?b" "\<not> insert ?b" "truthy_str (connection_string ?b) \<or> \<not> truthy_str (query ?b)"
    by (simp_all add: args0_def truthy_str_def)
  have oa: "open_input_files world0 (input_paths ?a) [] = (Inr [Stdin], [OpenInput ''-'' (Inr Stdin)])"
    by (simp add: args0_def world0_def)
  have ob: "open_input_files world_missing (input_paths ?b) []
            = (Inl (OtherError ''IOError''),
               [OpenInput ''a.csv'' (Inr (File ''a.csv'')),
                OpenInput ''missing.csv'' (Inl (OtherError ''IOError''))])"
    by (simp add: args0_def world0_def world_missing_def)
  from no_create_without_insert[OF a, of world0] oa
  have 1: "main world0 ?a
           = (Some (ConfigurationError
                 (if truthy_str (dialect ?a) \<and> truthy_str (connection_string ?a)
                  then ''The --dialect option is only valid when neither --db nor --query are specified.''
                  else ''The --no-create option is only valid --insert is also specified.'')),
              [OpenInput ''-'' (Inr Stdin)])"
    by blast
  from no_create_without_insert[OF b, of world_missing] ob
  have 2: "main world_missing ?b
           = (Some (OtherError ''IOError''),
              [OpenInput ''a.csv'' (Inr (File ''a.csv'')),
               OpenInput ''missing.csv'' (Inl (OtherError ''IOError''))])"
    by blast
  from 1 2 show ?thesis by (simp add: args0_def truthy_str_def)
qed

text \<open>The loop reads neither \<open>args.connection_string\<close> nor \<open>args.insert\<close>.\<close>

lemma emit_args_irrelevant:
  "emit w (a\<lparr>connection_string := c, insert := i\<rparr>) cs di t n tr = emit w a cs di t n tr"
  by (simp add: emit_def)

lemma ingest_args_irrelevant:
  "ingest w (a\<lparr>connection_string := c, insert := i\<rparr>) cs di fs names tr
   = ingest w a cs di fs names tr"
  by (induction fs arbitrary: names tr)
     (simp_all add: emit_args_irrelevant Let_def split: prod.splits sum.splits option.splits)

text \<open>
  C7: a query without a database target runs exactly as the same command line with
  \<open>--db sqlite:///:memory: --insert\<close>: the in-memory database is the connection target and
  the insert is on.
\<close>

theorem query_without_db:
  assumes "truthy_str (query a)" and "\<not> truthy_str (connection_string a)"
  shows "effective a = (Some ''sqlite:///:memory:'', True) \<and>
         main w a = main w (a\<lparr>connection_string := Some ''sqlite:///:memory:'', insert := True\<rparr>)"
proof -
  let ?a' = "a\<lparr>connection_string := Some ''sqlite:///:memory:'', insert := True\<rparr>"
  have "pipeline w a fs tr = pipeline w ?a' fs tr" for fs tr
    using assms
    by (simp add: pipeline_def effective_def check_flags_def explicit_names_def truthy_str_def
          ingest_args_irrelevant)
  then have "main w a = main w ?a'"
    by (simp add: main_def split: prod.splits sum.splits)
  with assms show ?thesis
    by (simp add: effective_def)
qed

theorem query_without_db_witness:
  "main world0 (args0\<lparr>query := Some ''SELECT 1;''\<rparr>)
   = main world0 (args0\<lparr>query := Some ''SELECT 1;'',
                         connection_string := Some ''sqlite:///:memory:'', insert := True\<rparr>) \<and>
   main world0 (args0\<lparr>query := Some ''SELECT 1;''\<rparr>)
   = (None,
      [OpenInput ''-'' (Inr Stdin), GetConnection ''sqlite:///:memory:'', EngineConnect, Begin,
       FromCsv Stdin ''stdin'' (Inr table1), CloseInput Stdin,
       MakeTable ''stdin'' False None, CreateTable ''stdin'', InsertRows ''stdin'' [[(''id'', ''1'')]],
       Execute ''SELECT 1'' (Inr \<lparr>metadata_keys = Some [''1''], fetch = [[''1'']]\<rparr>),
       WriteRow [''1''], WriteRow [''1''], Commit, CloseConnection])"
proof -
  have "main world0 (args0\<lparr>query := Some ''SELECT 1;''\<rparr>)
        = main world0 ((args0\<lparr>query := Some ''SELECT 1;''\<rparr>)
             \<lparr>connection_string := Some ''sqlite:///:memory:'', insert := True\<rparr>)"
    using query_without_db[of "args0\<lparr>query := Some ''SELECT 1;''\<rparr>" world0]
    by (simp add: args0_def truthy_str_def)
  moreover have "main world0 (args0\<lparr>query := Some ''SELECT 1;''\<rparr>)
   = (None,
      [OpenInput ''-'' (Inr Stdin), GetConnection ''sqlite:///:memory:'', EngineConnect, Begin,
       FromCsv Stdin ''stdin'' (Inr table1), CloseInput Stdin,
       MakeTable ''stdin'' False None, CreateTable ''stdin'', InsertRows ''stdin'' [[(''id'', ''1'')]],
       Execute ''SELECT 1'' (Inr \<lparr>metadata_keys = Some [''1''], fetch = [[''1'']]\<rparr>),
       WriteRow [''1''], WriteRow [''1''], Commit, CloseConnection])"
    by (simp add: run_defs)
  ultimately show ?thesis by (simp add: args0_def)
qed

text \<open>
  C10, as stated, fails: with \<open>--dialect\<close> and \<open>--query\<close> but no \<open>--db\<close>, a run whose
  input path does not open ends with the exception of the opening (lines 51 and 52), not
  with a configuration error: line 64 is never reached.
\<close>

theorem dialect_with_query_counterexample:
  "main world_missing (args0\<lparr>input_paths := [''missing.csv''], dialect := Some ''postgresql'',
                              query := Some ''SELECT 1''\<rparr>)
   = (Some (OtherError ''IOError''), [OpenInput ''missing.csv'' (Inl (OtherError ''IOError''))])"
  by (simp add: run_defs world_missing_def)

text \<open>
  C10, amended: with \<open>--dialect\<close> and \<open>--query\<close> but no \<open>--db\<close>, line 61 has put the
  in-memory connection string in place before line 64 checks the dialect, so a run whose
  input paths have all opened ends with the configuration error of \<open>--dialect\<close>; when a
  path does not open, the run ends with the exception of the opening. Either way nothing
  is read and no connection is attempted.
\<close>

theorem dialect_with_query_rejected:
  assumes "truthy_str (dialect a)" and "truthy_str (query a)"
      and "\<not> truthy_str (connection_string a)"
  shows "fst (effective a) = Some ''sqlite:///:memory:'' \<and>
         list_all is_open (snd (main w a)) \<and>
         (\<forall>fs tr. open_input_files w (input_paths a) [] = (Inr fs, tr) \<longrightarrow>
            main w a = (Some (ConfigurationError
              ''The --dialect option is only valid when neither --db nor --query are specified.''), tr)) \<and>
         (\<forall>e tr. open_input_files w (input_paths a) [] = (Inl e, tr) \<longrightarrow> main w a = (Some e, tr))"
proof (intro conjI allI impI)
  from assms show "fst (effective a) = Some ''sqlite:///:memory:''"
    by (simp add: effective_def)
next
  from assms have "invalid_flags a" by (auto simp: invalid_flags_def)
  then show "list_all is_open (snd (main w a))" by (rule main_invalid_events)
next
  fix fs tr
  assume "open_input_files w (input_paths a) [] = (Inr fs, tr)"
  with assms show "main w a = (Some (ConfigurationError
              ''The --dialect option is only valid when neither --db nor --query are specified.''), tr)"
    by (simp add: main_def pipeline_def effective_def check_flags_def truthy_str_def)
next
  fix e tr
  assume "open_input_files w (input_paths a) [] = (Inl e, tr)"
  then show "main w a = (Some e, tr)" by (simp add: main_def)
qed

theorem dialect_with_query_rejected_witness:
  "main world0 (args0\<lparr>dialect := Some ''postgresql'', query := Some ''SELECT 1''\<rparr>)
   = (Some (ConfigurationError
        ''The --dialect option is only valid when neither --db nor --query are specified.''),
      [OpenInput ''-'' (Inr Stdin)])"
proof -
  let ?a = "args0\<lparr>dialect := Some ''postgresql'', query := Some ''SELECT 1''\<rparr>"
  have a: "truthy_str (dialect ?a)" "truthy_str (query ?a)" "\<not> truthy_str (connection_string ?a)"
    by (simp_all add: args0_def truthy_str_def)
  have o: "open_input_files world0 (input_paths ?a) [] = (Inr [Stdin], [OpenInput ''-'' (Inr Stdin)])"
    by (simp add: args0_def world0_def)
  from dialect_with_query_rejected[OF a, of world0] o show ?thesis by blast
qed

section \<open>The shape of a run\<close>

subsection \<open>Sequencing\<close>

lemma call_None: "call w ev tr = (None, tr') \<longleftrightarrow> raises w tr ev = None \<and> tr' = tr @ [ev]"
  by (auto simp: call_def)

lemma call_Some: "call w ev tr = (Some e, tr') \<longleftrightarrow> raises w tr ev = Some e \<and> tr' = tr @ [ev]"
  by (auto simp: call_def)

lemma and_then_None:
  "and_then r k = (None, tr') \<longleftrightarrow> (\<exists>tr1. r = (None, tr1) \<and> k tr1 = (None, tr'))"
  by (cases r) (auto simp: and_then_def split: option.splits)

lemma and_then_NoneD:
  "and_then r k = (None, tr') \<Longrightarrow> \<exists>tr1. r = (None, tr1) \<and> k tr1 = (None, tr')"
  by (simp add: and_then_None)

lemma and_then_Some:
  "and_then r k = (Some e, tr') \<longleftrightarrow>
     r = (Some e, tr') \<or> (\<exists>tr1. r = (None, tr1) \<and> k tr1 = (Some e, tr'))"
  by (cases r) (auto simp: and_then_def split: option.splits)

lemma extends_refl: "extends P tr tr"
  by (simp add: extends_def)

lemma extends_trans: "extends P tr tr1 \<Longrightarrow> extends P tr1 tr2 \<Longrightarrow> extends P tr tr2"
  by (auto simp: extends_def)

lemma extends_snoc: "P ev \<Longrightarrow> extends P tr (tr @ [ev])"
  by (simp add: extends_def)

lemma extends_mono: "extends P tr tr' \<Longrightarrow> (\<And>ev. P ev \<Longrightarrow> Q ev) \<Longrightarrow> extends Q tr tr'"
  by (auto simp: extends_def list_all_iff)

lemma extends_call: "P ev \<Longrightarrow> call w ev tr = (r, tr') \<Longrightarrow> extends P tr tr'"
  by (auto simp: call_def extends_def)

lemma extends_and_then:
  assumes "and_then x k = (r, tr')"
      and "\<And>r1 tr1. x = (r1, tr1) \<Longrightarrow> extends P tr tr1"
      and "\<And>tr1 r2 tr2. x = (None, tr1) \<Longrightarrow> k tr1 = (r2, tr2) \<Longrightarrow> extends P tr1 tr2"
  shows "extends P tr tr'"
proof (cases x)
  case (Pair r1 tr1)
  show ?thesis
  proof (cases r1)
    case None
    with Pair assms(1) have "k tr1 = (r, tr')" by (simp add: and_then_def)
    with assms(2)[of r1 tr1] assms(3)[of tr1 r tr'] Pair None show ?thesis
      by (blast intro: extends_trans)
  next
    case (Some e)
    with Pair assms(1) have "tr' = tr1" by (simp add: and_then_def)
    with assms(2)[of r1 tr1] Pair show ?thesis by simp
  qed
qed

subsection \<open>The connection\<close>

lemma open_connection_ok:
  "open_connection w c tr = (None, tr') \<Longrightarrow> tr' = tr @ [GetConnection c, EngineConnect, Begin]"
  by (auto simp: open_connection_def call_def and_then_def split: option.splits error.splits)

lemma open_connection_extends:
  "open_connection w c tr = (r, tr') \<Longrightarrow> extends is_conn tr tr'"
  by (auto simp: open_connection_def call_def and_then_def extends_def
           split: option.splits error.splits)

subsection \<open>One table\<close>

lemma emit_ok:
  "emit w a cs di t n tr = (None, tr') \<Longrightarrow> tr' = tr @ table_events w a cs di t n"
  by (auto simp: emit_def table_events_def and_then_None call_None split: if_splits)

lemma emit_extends:
  "emit w a cs di t n tr = (r, tr') \<Longrightarrow> extends is_table tr tr'"
  by (auto simp: emit_def call_def and_then_def extends_def split: if_splits option.splits)

lemma emit_falsy: "\<not> truthy t \<Longrightarrow> emit w a cs di t n tr = (None, tr)"
  by (simp add: emit_def)

subsection \<open>The names\<close>

lemma resolve_name_tl: "snd (resolve_name names f) = tl names"
  by (cases names; cases f) simp_all

lemma resolve_name_fst:
  "fst (resolve_name names f) = (case names of [] \<Rightarrow> fallback_name f | n # ns \<Rightarrow> n)"
  by (cases names; cases f) (simp_all add: fallback_name_def)

lemma assigned_names_Cons:
  "assigned_names names (f # fs)
   = fst (resolve_name names f) # assigned_names (snd (resolve_name names f)) fs"
  by (cases names) (simp_all add: assigned_names_def resolve_name_fst resolve_name_tl)

lemma length_assigned_names: "length (assigned_names names fs) = length fs"
  by (simp add: assigned_names_def min_def)

subsection \<open>The loop\<close>

lemma ingest_ok:
  "ingest w a cs di fs names tr = (None, tr') \<Longrightarrow>
   \<exists>ts. length ts = length fs \<and>
        tr' = tr @ concat (map (source_events w a cs di) (zip fs (zip (assigned_names names fs) ts)))"
proof (induction fs arbitrary: names tr)
  case Nil
  then show ?case by simp
next
  case (Cons f fs)
  obtain n names' where rn: "resolve_name names f = (n, names')"
    by (cases "resolve_name names f") auto
  let ?r = "from_csv w tr f n (sniff_limit a) (\<not> blanks a) (\<not> no_inference a) (no_header_row a)"
  from Cons.prems rn obtain t where t: "?r = Inr t"
    by (cases ?r) (auto simp: Let_def)
  let ?tr1 = "tr @ [FromCsv f n (Inr t)]"
  from Cons.prems rn t have close: "raises w ?tr1 (CloseInput f) = None"
    by (auto simp: Let_def call_def split: option.splits)
  let ?tr2 = "?tr1 @ [CloseInput f]"
  from Cons.prems rn t close obtain tr3 where em: "emit w a cs di t n ?tr2 = (None, tr3)"
    and rec: "ingest w a cs di fs names' tr3 = (None, tr')"
    by (cases "emit w a cs di t n ?tr2")
       (auto simp: Let_def call_def split: option.splits)
  from emit_ok[OF em] have tr3: "tr3 = ?tr2 @ table_events w a cs di t n" .
  from Cons.IH[OF rec] obtain ts where ts: "length ts = length fs"
    and tr': "tr' = tr3 @ concat (map (source_events w a cs di) (zip fs (zip (assigned_names names' fs) ts)))"
    by blast
  have "assigned_names names (f # fs) = n # assigned_names names' fs"
    using rn by (simp add: assigned_names_Cons)
  with tr3 tr' ts have "length (t # ts) = length (f # fs) \<and>
      tr' = tr @ concat (map (source_events w a cs di)
                           (zip (f # fs) (zip (assigned_names names (f # fs)) (t # ts))))"
    by (simp add: source_events_def)
  then show ?case by blast
qed

lemma ingest_extends:
  "ingest w a cs di fs names tr = (r, tr') \<Longrightarrow>
   extends (\<lambda>ev. is_from_csv ev \<or> (\<exists>f. ev = CloseInput f) \<or> is_table ev) tr tr'"
proof (induction fs arbitrary: names tr)
  case Nil
  then show ?case by (simp add: extends_refl)
next
  case (Cons f fs)
  let ?P = "\<lambda>ev. is_from_csv ev \<or> (\<exists>f. ev = CloseInput f) \<or> is_table ev"
  obtain n names' where rn: "resolve_name names f = (n, names')"
    by (cases "resolve_name names f") auto
  let ?r = "from_csv w tr f n (sniff_limit a) (\<not> blanks a) (\<not> no_inference a) (no_header_row a)"
  let ?tr1 = "tr @ [FromCsv f n ?r]"
  have e1: "extends ?P tr ?tr1" by (rule extends_snoc) simp
  show ?case
  proof (cases ?r)
    case (Inl e)
    with Cons.prems rn have "tr' = ?tr1" by (simp add: Let_def)
    with e1 show ?thesis by simp
  next
    case (Inr t)
    let ?tr2 = "?tr1 @ [CloseInput f]"
    have e2: "extends ?P tr ?tr2"
      by (rule extends_trans[OF e1]) (rule extends_snoc, simp)
    show ?thesis
    proof (cases "raises w ?tr1 (CloseInput f)")
      case (Some e)
      with Cons.prems rn Inr have "tr' = ?tr2" by (simp add: Let_def call_def)
      with e2 show ?thesis by simp
    next
      case None
      obtain r3 tr3 where em: "emit w a cs di t n ?tr2 = (r3, tr3)"
        by (cases "emit w a cs di t n ?tr2") auto
      from emit_extends[OF em] have "extends ?P ?tr2 tr3"
        by (rule extends_mono) simp
      with e2 have e3: "extends ?P tr tr3" by (rule extends_trans)
      show ?thesis
      proof (cases r3)
        case (Some e)
        with Cons.prems rn Inr None em have "tr' = tr3" by (simp add: Let_def call_def)
        with e3 show ?thesis by simp
      next
        case None': None
        with Cons.prems rn Inr None em have "ingest w a cs di fs names' tr3 = (r, tr')"
          by (simp add: Let_def call_def)
        from Cons.IH[OF this] e3 show ?thesis by (blast intro: extends_trans)
      qed
    qed
  qed
qed

subsection \<open>The queries\<close>


lemma execute_queries_extends:
  "execute_queries w qs rows tr = (r, tr') \<Longrightarrow> extends is_query tr tr'"
proof (induction qs arbitrary: rows tr)
  case Nil
  then show ?case by (simp add: extends_refl)
next
  case (Cons q qs)
  show ?case
  proof (cases "q = []")
    case True
    with Cons show ?thesis by simp
  next
    case False
    let ?tr1 = "tr @ [Execute q (execute w tr q)]"
    have e1: "extends is_query tr ?tr1" by (rule extends_snoc) simp
    show ?thesis
    proof (cases "execute w tr q")
      case (Inl e)
      with Cons.prems False have "tr' = ?tr1" by (simp add: Let_def)
      with e1 show ?thesis by simp
    next
      case (Inr rp)
      with Cons.prems False have "execute_queries w qs (Some rp) ?tr1 = (r, tr')"
        by (simp add: Let_def)
      from Cons.IH[OF this] e1 show ?thesis by (blast intro: extends_trans)
    qed
  qed
qed

lemma write_rows_shape:
  "write_rows w rs tr = (r, tr') \<Longrightarrow>
   \<exists>k\<le>length rs. tr' = tr @ map WriteRow (take k rs) \<and> (r = None \<longrightarrow> k = length rs)"
proof (induction rs arbitrary: tr)
  case Nil
  then show ?case by simp
next
  case (Cons x rs)
  show ?case
  proof (cases "raises w tr (WriteRow x)")
    case (Some e)
    then have "call w (WriteRow x) tr = (Some e, tr @ [WriteRow x])"
      by (simp add: call_def)
    with Cons.prems have "r = Some e" and "tr' = tr @ [WriteRow x]"
      by simp_all
    then show ?thesis by (intro exI[of _ 1]) simp
  next
    case None
    with Cons.prems have "write_rows w rs (tr @ [WriteRow x]) = (r, tr')"
      by (simp add: call_def)
    from Cons.IH[OF this] obtain k where k: "k \<le> length rs"
      "tr' = (tr @ [WriteRow x]) @ map WriteRow (take k rs)" "r = None \<longrightarrow> k = length rs"
      by blast
    then show ?thesis by (intro exI[of _ "Suc k"]) simp
  qed
qed


lemma write_result_shape:
  "write_result w rows tr = (r, tr') \<Longrightarrow>
   \<exists>k\<le>length (rendering rows). tr' = tr @ map WriteRow (take k (rendering rows))"
proof (cases "rendering rows = []")
  case True
  assume "write_result w rows tr = (r, tr')"
  with True have "tr' = tr"
    by (auto simp: write_result_def rendering_def split: option.splits)
  with True show ?thesis by simp
next
  case False
  assume wr: "write_result w rows tr = (r, tr')"
  from False obtain rp ks where rows: "rows = Some rp" and ks: "metadata_keys rp = Some ks"
    and rend: "rendering rows = ks # fetch rp"
    by (auto simp: rendering_def split: option.splits)
  obtain r1 tr1 where w1: "write_rows w (ks # fetch rp) tr = (r1, tr1)"
    by (cases "write_rows w (ks # fetch rp) tr") auto
  with wr rows ks have "tr' = tr1"
    by (auto simp: write_result_def split: option.splits error.splits)
  with write_rows_shape[OF w1] rend show ?thesis by auto
qed



lemma map_WriteRow_query: "list_all is_query (map WriteRow rs)"
  by (induction rs) simp_all

lemma run_query_extends: "run_query w q tr = (r, tr') \<Longrightarrow> extends is_query tr tr'"
proof -
  assume rq: "run_query w q tr = (r, tr')"
  obtain r1 tr1 where ex: "execute_queries w (split_str (CHR '';'') q) None tr = (r1, tr1)"
    by (cases "execute_queries w (split_str (CHR '';'') q) None tr") auto
  from execute_queries_extends[OF ex] have e1: "extends is_query tr tr1" .
  show ?thesis
  proof (cases r1)
    case (Inl e)
    with rq ex have "tr' = tr1" by (simp add: run_query_def)
    with e1 show ?thesis by simp
  next
    case (Inr rows)
    with rq ex have "write_result w rows tr1 = (r, tr')" by (simp add: run_query_def)
    from write_result_shape[OF this] have "extends is_query tr1 tr'"
      by (auto simp: extends_def map_WriteRow_query)
    with e1 show ?thesis by (rule extends_trans)
  qed
qed

subsection \<open>The whole run\<close>

lemma is_open_not_final: "is_open ev \<Longrightarrow> \<not> is_final ev"
  by (cases ev) simp_all

lemma is_conn_not_final: "is_conn ev \<Longrightarrow> \<not> is_final ev"
  by (cases ev) simp_all

lemma is_query_not_final: "is_query ev \<Longrightarrow> \<not> is_final ev"
  by (cases ev) simp_all

lemma is_ingest_not_final:
  "is_from_csv ev \<or> (\<exists>f. ev = CloseInput f) \<or> is_table ev \<Longrightarrow> \<not> is_final ev"
  by (cases ev) auto

text \<open>
  Every run consists of events that do not end the transaction, followed by nothing, by
  the commit, or by the commit and the closing of the connection.
\<close>

lemma pipeline_shape:
  assumes "pipeline w a fs tr = (r, tr')"
  shows "\<exists>pre. extends (\<lambda>ev. \<not> is_final ev) tr pre \<and>
           ((tr' = pre \<and> (r \<noteq> None \<or> \<not> truthy_str (fst (effective a)))) \<or>
            (truthy_str (fst (effective a)) \<and> tr' = pre @ [Commit]
               \<and> raises w pre Commit = r \<and> r \<noteq> None) \<or>
            (truthy_str (fst (effective a)) \<and> tr' = pre @ [Commit, CloseConnection]
               \<and> raises w pre Commit = None \<and> raises w (pre @ [Commit]) CloseConnection = r))"
proof -
  let ?Q = "\<lambda>ev. \<not> is_final ev"
  obtain cs di where eff: "effective a = (cs, di)" by (cases "effective a")
  show ?thesis
  proof (cases "check_flags a cs di")
    case (Some e)
    with assms eff have "r = Some e" "tr' = tr" by (simp_all add: pipeline_def)
    then show ?thesis by (intro exI[of _ tr]) (simp add: extends_refl)
  next
    case cf: None
    obtain r1 tr1 where c: "(case cs of None \<Rightarrow> (None, tr)
         | Some c \<Rightarrow> if c \<noteq> [] then open_connection w c tr else (None, tr)) = (r1, tr1)"
      by (cases "case cs of None \<Rightarrow> (None, tr)
         | Some c \<Rightarrow> if c \<noteq> [] then open_connection w c tr else (None, tr)")
    then have "extends is_conn tr tr1"
      by (auto split: option.splits if_splits simp: extends_refl dest: open_connection_extends)
    then have e1: "extends ?Q tr tr1"
      by (rule extends_mono) (rule is_conn_not_final)
    show ?thesis
    proof (cases r1)
      case (Some e)
      with assms eff cf c have "r = Some e \<and> tr' = tr1"
        by (simp add: pipeline_def and_then_def)
      with e1 show ?thesis by (intro exI[of _ tr1]) simp
    next
      case r1: None
      obtain r2 tr2 where i: "ingest w a cs di fs (explicit_names a) tr1 = (r2, tr2)"
        by (cases "ingest w a cs di fs (explicit_names a) tr1")
      from ingest_extends[OF i] have "extends ?Q tr1 tr2"
        by (rule extends_mono) (rule is_ingest_not_final)
      with e1 have e2: "extends ?Q tr tr2" by (rule extends_trans)
      show ?thesis
      proof (cases r2)
        case (Some e)
        with assms eff cf c r1 i have "r = Some e \<and> tr' = tr2"
          by (simp add: pipeline_def and_then_def)
        with e2 show ?thesis by (intro exI[of _ tr2]) simp
      next
        case r2: None
        show ?thesis
        proof (cases "truthy_str cs")
          case False
          with assms eff cf c r1 i r2 have "r = None \<and> tr' = tr2"
            by (simp add: pipeline_def and_then_def)
          with e2 False eff show ?thesis by (intro exI[of _ tr2]) simp
        next
          case live: True
          obtain r3 tr3 where q: "(case query a of None \<Rightarrow> (None, tr2)
               | Some q \<Rightarrow> if q \<noteq> [] then run_query w q tr2 else (None, tr2)) = (r3, tr3)"
            by (cases "case query a of None \<Rightarrow> (None, tr2)
               | Some q \<Rightarrow> if q \<noteq> [] then run_query w q tr2 else (None, tr2)")
          then have "extends is_query tr2 tr3"
            by (auto split: option.splits if_splits simp: extends_refl dest: run_query_extends)
          then have "extends ?Q tr2 tr3"
            by (rule extends_mono) (rule is_query_not_final)
          with e2 have e3: "extends ?Q tr tr3" by (rule extends_trans)
          show ?thesis
          proof (cases r3)
            case (Some e)
            with assms eff cf c r1 i r2 live q have "r = Some e \<and> tr' = tr3"
              by (simp add: pipeline_def and_then_def)
            with e3 show ?thesis by (intro exI[of _ tr3]) simp
          next
            case r3: None
            show ?thesis
            proof (cases "raises w tr3 Commit")
              case (Some e)
              with assms eff cf c r1 i r2 live q r3 have "r = Some e \<and> tr' = tr3 @ [Commit]"
                by (simp add: pipeline_def and_then_def call_def)
              with e3 live eff Some show ?thesis by (intro exI[of _ tr3]) simp
            next
              case None
              with assms eff cf c r1 i r2 live q r3
              have "r = raises w (tr3 @ [Commit]) CloseConnection
                    \<and> tr' = tr3 @ [Commit, CloseConnection]"
                by (simp add: pipeline_def and_then_def call_def)
              with e3 live eff None show ?thesis by (intro exI[of _ tr3]) simp
            qed
          qed
        qed
      qed
    qed
  qed
qed

lemma main_shape:
  assumes "main w a = (r, tr)"
  shows "\<exists>pre. list_all (\<lambda>ev. \<not> is_final ev) pre \<and>
           ((tr = pre \<and> (r \<noteq> None \<or> \<not> truthy_str (fst (effective a)))) \<or>
            (truthy_str (fst (effective a)) \<and> tr = pre @ [Commit]
               \<and> raises w pre Commit = r \<and> r \<noteq> None) \<or>
            (truthy_str (fst (effective a)) \<and> tr = pre @ [Commit, CloseConnection]
               \<and> raises w pre Commit = None \<and> raises w (pre @ [Commit]) CloseConnection = r))"
proof -
  obtain r0 tr0 where o: "open_input_files w (input_paths a) [] = (r0, tr0)"
    by (cases "open_input_files w (input_paths a) []")
  from open_input_files_events[OF o] have "extends is_open [] tr0"
    by (simp add: extends_def)
  then have e0: "extends (\<lambda>ev. \<not> is_final ev) [] tr0"
    by (rule extends_mono) (rule is_open_not_final)
  show ?thesis
  proof (cases r0)
    case (Inl e)
    with assms o have "r = Some e \<and> tr = tr0" by (simp add: main_def)
    with e0 show ?thesis by (intro exI[of _ tr0]) (simp add: extends_def)
  next
    case (Inr fs)
    with assms o have "pipeline w a fs tr0 = (r, tr)" by (simp add: main_def)
    from pipeline_shape[OF this] obtain pre where pre: "extends (\<lambda>ev. \<not> is_final ev) tr0 pre"
      and sh: "(tr = pre \<and> (r \<noteq> None \<or> \<not> truthy_str (fst (effective a)))) \<or>
            (truthy_str (fst (effective a)) \<and> tr = pre @ [Commit]
               \<and> raises w pre Commit = r \<and> r \<noteq> None) \<or>
            (truthy_str (fst (effective a)) \<and> tr = pre @ [Commit, CloseConnection]
               \<and> raises w pre Commit = None \<and> raises w (pre @ [Commit]) CloseConnection = r)"
      by blast
    from extends_trans[OF e0 pre] have "list_all (\<lambda>ev. \<not> is_final ev) pre"
      by (simp add: extends_def)
    with sh show ?thesis by blast
  qed
qed

text \<open>A run that returns normally: the opens, the connection, one block per source, the rest.\<close>

lemma pipeline_ok:
  assumes "pipeline w a fs tr = (None, tr')"
  shows "\<exists>ts conn fin. length ts = length fs \<and>
           tr' = tr @ conn
                 @ concat (map (source_events w a (fst (effective a)) (snd (effective a)))
                             (zip fs (zip (assigned_names (explicit_names a) fs) ts)))
                 @ fin \<and>
           list_all is_conn conn \<and> list_all (\<lambda>ev. is_query ev \<or> is_final ev) fin \<and>
           (\<not> truthy_str (fst (effective a)) \<longrightarrow> conn = [] \<and> fin = [])"
proof -
  obtain cs di where eff: "effective a = (cs, di)" by (cases "effective a")
  let ?c = "case cs of None \<Rightarrow> (None, tr)
            | Some c \<Rightarrow> if c \<noteq> [] then open_connection w c tr else (None, tr)"
  let ?q = "\<lambda>tr2. case query a of None \<Rightarrow> (None, tr2)
            | Some q \<Rightarrow> if q \<noteq> [] then run_query w q tr2 else (None, tr2)"
  let ?k3 = "\<lambda>tr3. and_then (call w Commit tr3) (\<lambda>tr4. call w CloseConnection tr4)"
  let ?k2 = "\<lambda>tr2. if truthy_str cs then and_then (?q tr2) ?k3 else (None, tr2)"
  let ?k1 = "\<lambda>tr1. and_then (ingest w a cs di fs (explicit_names a) tr1) ?k2"
  have cf: "check_flags a cs di = None"
    using assms eff by (cases "check_flags a cs di") (simp_all add: pipeline_def)
  with assms eff have at: "and_then ?c ?k1 = (None, tr')"
    by (simp add: pipeline_def)
  from and_then_NoneD[OF at] obtain tr1 where c: "?c = (None, tr1)"
    and at1: "?k1 tr1 = (None, tr')"
    by blast
  from and_then_NoneD[OF at1] obtain tr2
    where i: "ingest w a cs di fs (explicit_names a) tr1 = (None, tr2)"
      and f: "?k2 tr2 = (None, tr')"
    by blast
  have "\<exists>conn. tr1 = tr @ conn \<and> list_all is_conn conn \<and> (\<not> truthy_str cs \<longrightarrow> conn = [])"
  proof (cases "truthy_str cs")
    case False
    with c have "tr1 = tr" by (auto simp: truthy_str_def split: option.splits if_splits)
    with False show ?thesis by simp
  next
    case True
    then obtain x where x: "cs = Some x" "x \<noteq> []"
      by (auto simp: truthy_str_def split: option.splits)
    with c have "open_connection w x tr = (None, tr1)" by simp
    from open_connection_ok[OF this] True show ?thesis by simp
  qed
  then obtain conn where conn: "tr1 = tr @ conn" "list_all is_conn conn"
      "\<not> truthy_str cs \<longrightarrow> conn = []"
    by blast
  from ingest_ok[OF i] obtain ts where ts: "length ts = length fs"
    "tr2 = tr1 @ concat (map (source_events w a cs di) (zip fs (zip (assigned_names (explicit_names a) fs) ts)))"
    by blast
  have "\<exists>fin. tr' = tr2 @ fin \<and> list_all (\<lambda>ev. is_query ev \<or> is_final ev) fin
          \<and> (\<not> truthy_str cs \<longrightarrow> fin = [])"
  proof (cases "truthy_str cs")
    case False
    with f show ?thesis by simp
  next
    case True
    with f have f1: "and_then (?q tr2) ?k3 = (None, tr')" by simp
    from and_then_NoneD[OF f1] obtain tr3 where q: "?q tr2 = (None, tr3)"
      and f2: "?k3 tr3 = (None, tr')"
      by blast
    from and_then_NoneD[OF f2] have tr': "tr' = tr3 @ [Commit, CloseConnection]"
      by (auto simp: call_None)
    have "extends is_query tr2 tr3"
    proof (cases "truthy_str (query a)")
      case False
      with q have "tr3 = tr2" by (auto simp: truthy_str_def split: option.splits if_splits)
      then show ?thesis by (simp add: extends_refl)
    next
      case True
      then obtain y where "query a = Some y" "y \<noteq> []"
        by (auto simp: truthy_str_def split: option.splits)
      with q have "run_query w y tr2 = (None, tr3)" by simp
      then show ?thesis by (rule run_query_extends)
    qed
    then obtain evs where "tr3 = tr2 @ evs" "list_all is_query evs"
      by (auto simp: extends_def)
    with tr' True show ?thesis
      by (intro exI[of _ "evs @ [Commit, CloseConnection]"]) (auto simp: list_all_iff)
  qed
  then obtain fin where fin: "tr' = tr2 @ fin" "list_all (\<lambda>ev. is_query ev \<or> is_final ev) fin"
    "\<not> truthy_str cs \<longrightarrow> fin = []"
    by blast
  from conn ts fin eff show ?thesis
    by (intro exI[of _ ts] exI[of _ conn] exI[of _ fin]) simp
qed

lemma main_ok:
  assumes "main w a = (None, tr)"
  shows "\<exists>fs ts conn fin.
           open_input_files w (input_paths a) [] = (Inr fs, opened (input_paths a) fs) \<and>
           length fs = length (input_paths a) \<and> length ts = length fs \<and>
           tr = opened (input_paths a) fs @ conn
                @ concat (map (source_events w a (fst (effective a)) (snd (effective a)))
                            (zip fs (zip (assigned_names (explicit_names a) fs) ts)))
                @ fin \<and>
           list_all is_conn conn \<and> list_all (\<lambda>ev. is_query ev \<or> is_final ev) fin \<and>
           (\<not> truthy_str (fst (effective a)) \<longrightarrow> conn = [] \<and> fin = [])"
proof -
  from assms obtain fs tr0 where o: "open_input_files w (input_paths a) [] = (Inr fs, tr0)"
    and p: "pipeline w a fs tr0 = (None, tr)"
    by (auto simp: main_def split: prod.splits sum.splits)
  from open_input_files_ok[OF o] have fs: "length fs = length (input_paths a)"
    "tr0 = opened (input_paths a) fs" by simp_all
  from pipeline_ok[OF p] fs o show ?thesis by blast
qed

lemma main_ok_opened:
  assumes "main w a = (None, tr)"
      and "open_input_files w (input_paths a) [] = (Inr fs, tr0)"
  shows "length fs = length (input_paths a) \<and>
         (\<exists>ts conn fin. length ts = length fs \<and>
            tr = opened (input_paths a) fs @ conn
                 @ concat (map (source_events w a (fst (effective a)) (snd (effective a)))
                             (zip fs (zip (assigned_names (explicit_names a) fs) ts)))
                 @ fin \<and>
            list_all is_conn conn \<and> list_all (\<lambda>ev. is_query ev \<or> is_final ev) fin)"
proof -
  from main_ok[OF assms(1)] obtain fs' ts conn fin
    where o: "open_input_files w (input_paths a) [] = (Inr fs', opened (input_paths a) fs')"
      and rest: "length fs' = length (input_paths a)" "length ts = length fs'"
        "tr = opened (input_paths a) fs' @ conn
                 @ concat (map (source_events w a (fst (effective a)) (snd (effective a)))
                             (zip fs' (zip (assigned_names (explicit_names a) fs') ts)))
                 @ fin"
        "list_all is_conn conn" "list_all (\<lambda>ev. is_query ev \<or> is_final ev) fin"
    by blast
  from o assms(2) have "fs' = fs" by simp
  with rest show ?thesis by blast
qed

section \<open>The transaction\<close>

text \<open>
  C5, as stated, fails: when \<open>connection.close()\<close> raises, the run fails at a step after
  the opening of the connection, yet the commit has been reached and has succeeded.
\<close>

theorem commit_reached_counterexample:
  "main world_close_fails (args0\<lparr>connection_string := Some ''sqlite:///x.db''\<rparr>)
   = (Some (OtherError ''OperationalError''),
      [OpenInput ''-'' (Inr Stdin), GetConnection ''sqlite:///x.db'', EngineConnect, Begin,
       FromCsv Stdin ''stdin'' (Inr table1), CloseInput Stdin,
       MakeTable ''stdin'' False None, CreateTable ''stdin'', Commit, CloseConnection]) \<and>
   raises world_close_fails
     [OpenInput ''-'' (Inr Stdin), GetConnection ''sqlite:///x.db'', EngineConnect, Begin,
      FromCsv Stdin ''stdin'' (Inr table1), CloseInput Stdin,
      MakeTable ''stdin'' False None, CreateTable ''stdin''] Commit = None"
  by (simp add: run_defs world_close_fails_def)

text \<open>
  C5, amended: no run issues a rollback; a run without a connection target never commits;
  a live run that returns normally ends with the one commit and the closing of the
  connection, everything else before them; and a run that ends with an exception has
  either not reached the commit, or the exception is that of the commit itself, or the
  commit has succeeded and the exception is that of the closing of the connection after it.
  So a step that fails before the commit leaves the transaction uncommitted.
\<close>

theorem commit_only_at_end:
  assumes "main w a = (r, tr)"
  shows "Rollback \<notin> set tr \<and>
         (\<not> truthy_str (fst (effective a)) \<longrightarrow> Commit \<notin> set tr) \<and>
         (truthy_str (fst (effective a)) \<and> r = None \<longrightarrow>
            (\<exists>pre. tr = pre @ [Commit, CloseConnection] \<and> Commit \<notin> set pre \<and> CloseConnection \<notin> set pre)) \<and>
         (r \<noteq> None \<longrightarrow>
            Commit \<notin> set tr \<or>
            (\<exists>pre. Commit \<notin> set pre \<and>
               ((tr = pre @ [Commit] \<and> raises w pre Commit = r) \<or>
                (tr = pre @ [Commit, CloseConnection] \<and> raises w pre Commit = None
                   \<and> raises w (pre @ [Commit]) CloseConnection = r))))"
proof -
  from main_shape[OF assms] obtain pre where pre: "list_all (\<lambda>ev. \<not> is_final ev) pre"
    and sh: "(tr = pre \<and> (r \<noteq> None \<or> \<not> truthy_str (fst (effective a)))) \<or>
            (truthy_str (fst (effective a)) \<and> tr = pre @ [Commit]
               \<and> raises w pre Commit = r \<and> r \<noteq> None) \<or>
            (truthy_str (fst (effective a)) \<and> tr = pre @ [Commit, CloseConnection]
               \<and> raises w pre Commit = None \<and> raises w (pre @ [Commit]) CloseConnection = r)"
    by blast
  from pre have nf: "Commit \<notin> set pre" "Rollback \<notin> set pre" "CloseConnection \<notin> set pre"
    by (auto simp: list_all_iff)
  from sh nf have 1: "Rollback \<notin> set tr" by auto
  from sh nf have 2: "\<not> truthy_str (fst (effective a)) \<longrightarrow> Commit \<notin> set tr" by auto
  from sh nf have 3: "truthy_str (fst (effective a)) \<and> r = None \<longrightarrow>
            (\<exists>pre. tr = pre @ [Commit, CloseConnection] \<and> Commit \<notin> set pre \<and> CloseConnection \<notin> set pre)"
    by auto
  from sh nf have 4: "r \<noteq> None \<longrightarrow>
            Commit \<notin> set tr \<or>
            (\<exists>pre. Commit \<notin> set pre \<and>
               ((tr = pre @ [Commit] \<and> raises w pre Commit = r) \<or>
                (tr = pre @ [Commit, CloseConnection] \<and> raises w pre Commit = None
                   \<and> raises w (pre @ [Commit]) CloseConnection = r)))"
    by blast
  from 1 2 3 4 show ?thesis by blast
qed

theorem commit_only_at_end_witness:
  "main world0 (args0\<lparr>connection_string := Some ''sqlite:///x.db'', insert := True\<rparr>)
   = (None,
      [OpenInput ''-'' (Inr Stdin), GetConnection ''sqlite:///x.db'', EngineConnect, Begin,
       FromCsv Stdin ''stdin'' (Inr table1), CloseInput Stdin,
       MakeTable ''stdin'' False None, CreateTable ''stdin'', InsertRows ''stdin'' [[(''id'', ''1'')]],
       Commit, CloseConnection]) \<and>
   Rollback \<notin> set (snd (main world0
     (args0\<lparr>connection_string := Some ''sqlite:///x.db'', insert := True\<rparr>))) \<and>
   main world0 (args0\<lparr>input_paths := [''bad.csv''], connection_string := Some ''sqlite:///x.db''\<rparr>)
   = (Some (OtherError ''DecodingError''),
      [OpenInput ''bad.csv'' (Inr (File ''bad.csv'')), GetConnection ''sqlite:///x.db'',
       EngineConnect, Begin, FromCsv (File ''bad.csv'') ''bad'' (Inl (OtherError ''DecodingError''))]) \<and>
   Rollback \<notin> set (snd (main world0
     (args0\<lparr>input_paths := [''bad.csv''], connection_string := Some ''sqlite:///x.db''\<rparr>)))"
proof -
  let ?a = "args0\<lparr>connection_string := Some ''sqlite:///x.db'', insert := True\<rparr>"
  let ?b = "args0\<lparr>input_paths := [''bad.csv''], connection_string := Some ''sqlite:///x.db''\<rparr>"
  have ma: "main world0 ?a
   = (None,
      [OpenInput ''-'' (Inr Stdin), GetConnection ''sqlite:///x.db'', EngineConnect, Begin,
       FromCsv Stdin ''stdin'' (Inr table1), CloseInput Stdin,
       MakeTable ''stdin'' False None, CreateTable ''stdin'', InsertRows ''stdin'' [[(''id'', ''1'')]],
       Commit, CloseConnection])"
    by (simp add: run_defs)
  have mb: "main world0 ?b
   = (Some (OtherError ''DecodingError''),
      [OpenInput ''bad.csv'' (Inr (File ''bad.csv'')), GetConnection ''sqlite:///x.db'',
       EngineConnect, Begin, FromCsv (File ''bad.csv'') ''bad'' (Inl (OtherError ''DecodingError''))])"
    by (simp add: run_defs)
  from commit_only_at_end[OF ma] have ra: "Rollback \<notin> set (snd (main world0 ?a))"
    by (simp only: ma snd_conv) blast
  from commit_only_at_end[OF mb] have rb: "Rollback \<notin> set (snd (main world0 ?b))"
    by (simp only: mb snd_conv) blast
  from ma mb ra rb show ?thesis by simp
qed

section \<open>The queries\<close>



section \<open>The sources\<close>

subsection \<open>Projections of the parts of a run\<close>

lemma file_ops_append: "file_ops (xs @ ys) = file_ops xs @ file_ops ys"
  by (simp add: file_ops_def)

lemma from_csv_calls_append: "from_csv_calls (xs @ ys) = from_csv_calls xs @ from_csv_calls ys"
  by (simp add: from_csv_calls_def)

lemma written_append: "written (xs @ ys) = written xs @ written ys"
  by (simp add: written_def)

lemma opened_Cons: "opened (p # ps) (f # fs) = OpenInput p (Inr f) # opened ps fs"
  by (simp add: opened_def)

lemma length_opened: "length fs = length ps \<Longrightarrow> length (opened ps fs) = length fs"
  by (simp add: opened_def)

lemma opened_projections:
  "length fs = length ps \<Longrightarrow>
     file_ops (opened ps fs) = map Opened fs \<and> from_csv_calls (opened ps fs) = []
     \<and> written (opened ps fs) = [] \<and> filter is_from_csv (opened ps fs) = []"
  by (induction fs ps rule: list_induct2)
     (simp_all add: opened_def file_ops_def from_csv_calls_def written_def)

lemma open_handles_opened:
  "length fs = length ps \<Longrightarrow> foldl step_open hs (opened ps fs) = hs @ fs"
  by (induction fs ps arbitrary: hs rule: list_induct2) (simp_all add: opened_def)

lemma conn_projections:
  "list_all is_conn evs \<Longrightarrow>
     file_ops evs = [] \<and> from_csv_calls evs = [] \<and> written evs = [] \<and> filter is_from_csv evs = []"
proof (induction evs)
  case Nil
  then show ?case by (simp add: file_ops_def from_csv_calls_def written_def)
next
  case (Cons ev evs)
  then show ?case
    by (cases ev) (simp_all add: file_ops_def from_csv_calls_def written_def)
qed

lemma fin_projections:
  "list_all (\<lambda>ev. is_query ev \<or> is_final ev) evs \<Longrightarrow>
     file_ops evs = [] \<and> from_csv_calls evs = [] \<and> filter is_from_csv evs = []"
proof (induction evs)
  case Nil
  then show ?case by (simp add: file_ops_def from_csv_calls_def)
next
  case (Cons ev evs)
  then show ?case
    by (cases ev) (simp_all add: file_ops_def from_csv_calls_def)
qed

lemma table_events_projections:
  "file_ops (table_events w a cs di t n) = [] \<and> from_csv_calls (table_events w a cs di t n) = []
   \<and> filter is_from_csv (table_events w a cs di t n) = []"
  by (simp add: table_events_def file_ops_def from_csv_calls_def)

lemma written_table_events_static:
  "\<not> truthy_str cs \<Longrightarrow>
   written (table_events w a cs di t n)
   = (if truthy t
      then [WriteOutput (make_create_table_statement w t n (no_constraints a) (dialect a) @ [CHR 0x0A])]
      else [])"
  by (simp add: table_events_def written_def)

lemma sources_file_ops:
  "file_ops (concat (map (source_events w a cs di) xs))
   = concat (map (\<lambda>f. [Read f, Closed f]) (map fst xs))"
proof (induction xs)
  case Nil
  then show ?case by (simp add: file_ops_def)
next
  case (Cons x xs)
  obtain f n t where x: "x = (f, n, t)" by (cases x)
  have "file_ops (source_events w a cs di x) = [Read f, Closed f]"
    using table_events_projections[of w a cs di t n]
    by (simp add: x source_events_def file_ops_append) (simp add: file_ops_def)
  with Cons x show ?case by (simp add: file_ops_append)
qed

lemma sources_from_csv_calls:
  "from_csv_calls (concat (map (source_events w a cs di) xs))
   = map (\<lambda>x. (fst x, fst (snd x))) xs"
proof (induction xs)
  case Nil
  then show ?case by (simp add: from_csv_calls_def)
next
  case (Cons x xs)
  obtain f n t where x: "x = (f, n, t)" by (cases x)
  have "from_csv_calls (source_events w a cs di x) = [(f, n)]"
    using table_events_projections[of w a cs di t n]
    by (simp add: x source_events_def from_csv_calls_append) (simp add: from_csv_calls_def)
  with Cons x show ?case by (simp add: from_csv_calls_append)
qed

lemma sources_is_from_csv:
  "filter is_from_csv (concat (map (source_events w a cs di) xs))
   = map (\<lambda>(f, n, t). FromCsv f n (Inr t)) xs"
proof (induction xs)
  case Nil
  then show ?case by simp
next
  case (Cons x xs)
  obtain f n t where x: "x = (f, n, t)" by (cases x)
  have "filter is_from_csv (source_events w a cs di x) = [FromCsv f n (Inr t)]"
    using table_events_projections[of w a cs di t n]
    by (simp add: x source_events_def)
  with Cons x show ?case by simp
qed

lemma sources_written_static:
  assumes "\<not> truthy_str cs"
  shows "written (concat (map (source_events w a cs di) xs))
   = map (\<lambda>(n, t). WriteOutput (make_create_table_statement w t n (no_constraints a) (dialect a) @ [CHR 0x0A]))
       (filter (\<lambda>(n, t). truthy t) (map snd xs))"
proof (induction xs)
  case Nil
  then show ?case by (simp add: written_def)
next
  case (Cons x xs)
  obtain f n t where x: "x = (f, n, t)" by (cases x)
  have "written (source_events w a cs di x)
        = (if truthy t
           then [WriteOutput (make_create_table_statement w t n (no_constraints a) (dialect a) @ [CHR 0x0A])]
           else [])"
    using written_table_events_static[OF assms, of w a di t n]
    by (simp add: x source_events_def written_append) (simp add: written_def)
  with Cons x show ?case by (simp add: written_append)
qed

lemma zip3_projections:
  assumes "length ns = length fs" and "length ts = length fs"
  shows "map fst (zip fs (zip ns ts)) = fs"
    and "map snd (zip fs (zip ns ts)) = zip ns ts"
    and "map (\<lambda>x. (fst x, fst (snd x))) (zip fs (zip ns ts)) = zip fs ns"
proof -
  from assms have l: "length fs = length (zip ns ts)" by simp
  from l show "map fst (zip fs (zip ns ts)) = fs" by (rule map_fst_zip)
  from l show "map snd (zip fs (zip ns ts)) = zip ns ts" by (rule map_snd_zip)
  from assms have "length fs = length ns" "length ns = length ts" by simp_all
  then show "map (\<lambda>x. (fst x, fst (snd x))) (zip fs (zip ns ts)) = zip fs ns"
    by (induction fs ns ts rule: list_induct3) simp_all
qed

subsection \<open>Splitting and file names\<close>

lemma split_str_nonempty: "split_str c s \<noteq> []"
  by (induction s) (auto split: list.splits)

lemma join_str_Cons_char: "join_str c ((x # y) # ys) = x # join_str c (y # ys)"
  by (cases ys) simp_all

lemma join_split_str: "join_str c (split_str c s) = s"
proof (induction s)
  case Nil
  show ?case by simp
next
  case (Cons x xs)
  obtain y ys where sp: "split_str c xs = y # ys"
    using split_str_nonempty[of c xs] by (cases "split_str c xs") auto
  show ?case
  proof (cases "x = c")
    case True
    with sp Cons show ?thesis by simp
  next
    case False
    with sp Cons show ?thesis by (simp add: join_str_Cons_char)
  qed
qed

lemma split_str_no_sep: "n \<in> set (split_str c s) \<Longrightarrow> c \<notin> set n"
proof (induction s arbitrary: n)
  case Nil
  then show ?case by simp
next
  case (Cons x xs)
  obtain y ys where sp: "split_str c xs = y # ys"
    using split_str_nonempty[of c xs] by (cases "split_str c xs") auto
  show ?case
  proof (cases "x = c")
    case True
    with Cons show ?thesis by auto
  next
    case False
    with sp Cons.prems have "n = x # y \<or> n \<in> set ys" by simp
    then show ?thesis
    proof
      assume "n = x # y"
      moreover from sp have "y \<in> set (split_str c xs)" by simp
      then have "c \<notin> set y" by (rule Cons.IH)
      ultimately show ?thesis using False by auto
    next
      assume "n \<in> set ys"
      with sp have "n \<in> set (split_str c xs)" by simp
      then show ?thesis by (rule Cons.IH)
    qed
  qed
qed

lemma rfind_absent: "c \<notin> set p \<Longrightarrow> rfind p c = -1"
  by (simp add: rfind_def)

lemma rfind_last: "c \<notin> set ys \<Longrightarrow> rfind (xs @ c # ys) c = int (length xs)"
proof -
  assume a: "c \<notin> set ys"
  then have "takeWhile (\<lambda>x. x \<noteq> c) (rev ys) = rev ys"
    by auto
  then have "takeWhile (\<lambda>x. x \<noteq> c) (rev ys @ c # rev xs) = rev ys"
    by (simp add: takeWhile_tail)
  then show ?thesis by (simp add: rfind_def)
qed

lemma split_tail_dir:
  "CHR ''/'' \<notin> set base \<Longrightarrow> os_path_split_tail (dir @ CHR ''/'' # base) = base"
  by (simp add: os_path_split_tail_def rfind_last nat_add_distrib)

lemma split_tail_plain: "CHR ''/'' \<notin> set base \<Longrightarrow> os_path_split_tail base = base"
  by (simp add: os_path_split_tail_def rfind_absent)

lemma splitext_root_ext:
  assumes "CHR ''/'' \<notin> set stem" and "CHR ''/'' \<notin> set ext" and "CHR ''.'' \<notin> set ext"
      and "\<exists>c \<in> set stem. c \<noteq> CHR ''.''"
  shows "os_path_splitext_root (stem @ CHR ''.'' # ext) = stem"
proof -
  from assms(1,2) have "rfind (stem @ CHR ''.'' # ext) (CHR ''/'') = -1"
    by (intro rfind_absent) simp
  moreover from assms(3) have "rfind (stem @ CHR ''.'' # ext) (CHR ''.'') = int (length stem)"
    by (rule rfind_last)
  ultimately show ?thesis using assms(4)
    by (simp add: os_path_splitext_root_def)
qed

lemma splitext_root_dots:
  assumes "CHR ''/'' \<notin> set ext" and "CHR ''.'' \<notin> set ext" and "\<forall>c \<in> set dots. c = CHR ''.''"
  shows "os_path_splitext_root (dots @ CHR ''.'' # ext) = dots @ CHR ''.'' # ext"
proof -
  from assms(3) have "CHR ''/'' \<notin> set dots" by auto
  with assms(1) have "rfind (dots @ CHR ''.'' # ext) (CHR ''/'') = -1"
    by (intro rfind_absent) simp
  moreover from assms(2) have "rfind (dots @ CHR ''.'' # ext) (CHR ''.'') = int (length dots)"
    by (rule rfind_last)
  ultimately show ?thesis using assms(3)
    by (simp add: os_path_splitext_root_def)
qed

lemma splitext_root_plain:
  "CHR ''/'' \<notin> set p \<Longrightarrow> CHR ''.'' \<notin> set p \<Longrightarrow> os_path_splitext_root p = p"
  by (simp add: os_path_splitext_root_def rfind_absent)

text \<open>The fallback name of a file: the directory goes, then the extension.\<close>

lemma fallback_name_dir:
  "CHR ''/'' \<notin> set base \<Longrightarrow> fallback_name (File (dir @ CHR ''/'' # base)) = fallback_name (File base)"
  by (simp add: fallback_name_def split_tail_dir split_tail_plain)

lemma fallback_name_ext:
  assumes "CHR ''/'' \<notin> set stem" and "CHR ''/'' \<notin> set ext" and "CHR ''.'' \<notin> set ext"
      and "\<exists>c \<in> set stem. c \<noteq> CHR ''.''"
  shows "fallback_name (File (stem @ CHR ''.'' # ext)) = stem"
proof -
  from assms(1,2) have "os_path_split_tail (stem @ CHR ''.'' # ext) = stem @ CHR ''.'' # ext"
    by (intro split_tail_plain) simp
  with splitext_root_ext[OF assms] show ?thesis by (simp add: fallback_name_def)
qed

lemma fallback_name_dots:
  assumes "CHR ''/'' \<notin> set ext" and "CHR ''.'' \<notin> set ext" and "\<forall>c \<in> set dots. c = CHR ''.''"
  shows "fallback_name (File (dots @ CHR ''.'' # ext)) = dots @ CHR ''.'' # ext"
proof -
  from assms(3) have "CHR ''/'' \<notin> set dots" by auto
  with assms(1) have "os_path_split_tail (dots @ CHR ''.'' # ext) = dots @ CHR ''.'' # ext"
    by (intro split_tail_plain) simp
  with splitext_root_dots[OF assms] show ?thesis by (simp add: fallback_name_def)
qed

lemma fallback_name_plain:
  "CHR ''/'' \<notin> set base \<Longrightarrow> CHR ''.'' \<notin> set base \<Longrightarrow> fallback_name (File base) = base"
  by (simp add: fallback_name_def split_tail_plain splitext_root_plain)

lemma explicit_names_split:
  "table_names a = Some s \<Longrightarrow> s \<noteq> [] \<Longrightarrow>
   join_str (CHR '','') (explicit_names a) = s \<and> (\<forall>n \<in> set (explicit_names a). CHR '','' \<notin> set n)"
  by (simp add: explicit_names_def join_split_str split_str_no_sep)

lemma explicit_names_none:
  "table_names a = None \<or> table_names a = Some [] \<Longrightarrow> explicit_names a = []"
  by (auto simp: explicit_names_def)

subsection \<open>Runs that end with an exception\<close>

lemma table_projections:
  "list_all is_table evs \<Longrightarrow> file_ops evs = [] \<and> from_csv_calls evs = []"
proof (induction evs)
  case Nil
  then show ?case by (simp add: file_ops_def from_csv_calls_def)
next
  case (Cons ev evs)
  then show ?case
    by (cases ev) (simp_all add: file_ops_def from_csv_calls_def)
qed

lemma file_ops_simps:
  "file_ops [] = []" "file_ops (ev # evs) = file_op_of ev @ file_ops evs"
  by (simp_all add: file_ops_def)

lemma from_csv_calls_simps:
  "from_csv_calls [] = []" "from_csv_calls (ev # evs) = from_csv_call ev @ from_csv_calls evs"
  by (simp_all add: from_csv_calls_def)

text \<open>
  Whatever the outcome of the loop, the sources it has read and closed, and the names it
  has given them, are an initial part of what a full pass gives.
\<close>

lemma ingest_prefix:
  "ingest w a cs di fs names tr = (r, tr') \<Longrightarrow>
   \<exists>evs. tr' = tr @ evs \<and>
         prefix (file_ops evs) (concat (map (\<lambda>f. [Read f, Closed f]) fs)) \<and>
         prefix (from_csv_calls evs) (zip fs (assigned_names names fs))"
proof (induction fs arbitrary: names tr)
  case Nil
  then show ?case by (simp add: file_ops_def from_csv_calls_def)
next
  case (Cons f fs)
  obtain n names' where rn: "resolve_name names f = (n, names')"
    by (cases "resolve_name names f") auto
  then have an: "assigned_names names (f # fs) = n # assigned_names names' fs"
    by (simp add: assigned_names_Cons)
  let ?r = "from_csv w tr f n (sniff_limit a) (\<not> blanks a) (\<not> no_inference a) (no_header_row a)"
  let ?ev1 = "FromCsv f n ?r"
  let ?tr1 = "tr @ [?ev1]"
  let ?goal = "\<lambda>evs. tr' = tr @ evs \<and>
         prefix (file_ops evs) (concat (map (\<lambda>f. [Read f, Closed f]) (f # fs))) \<and>
         prefix (from_csv_calls evs) (zip (f # fs) (assigned_names names (f # fs)))"
  show ?case
  proof (cases ?r)
    case (Inl e)
    with Cons.prems rn have "tr' = ?tr1" by (simp add: Let_def)
    then have "?goal [?ev1]"
      by (simp add: an file_ops_simps from_csv_calls_simps)
    then show ?thesis by blast
  next
    case (Inr t)
    let ?tr2 = "?tr1 @ [CloseInput f]"
    show ?thesis
    proof (cases "raises w ?tr1 (CloseInput f)")
      case (Some e)
      with Cons.prems rn Inr have "tr' = ?tr2" by (simp add: Let_def call_def)
      then have "?goal [?ev1, CloseInput f]"
        by (simp add: an file_ops_simps from_csv_calls_simps)
      then show ?thesis by blast
    next
      case None
      obtain r3 tr3 where em: "emit w a cs di t n ?tr2 = (r3, tr3)"
        by (cases "emit w a cs di t n ?tr2") auto
      from emit_extends[OF em] obtain tevs where tevs: "tr3 = ?tr2 @ tevs" "list_all is_table tevs"
        by (auto simp: extends_def)
      from table_projections[OF tevs(2)]
      have tp: "file_ops tevs = []" "from_csv_calls tevs = []" by simp_all
      show ?thesis
      proof (cases r3)
        case (Some e)
        with Cons.prems rn Inr None em have "tr' = tr3" by (simp add: Let_def call_def)
        with tevs tp have "?goal ([?ev1, CloseInput f] @ tevs)"
          by (simp add: an file_ops_append from_csv_calls_append file_ops_simps
                from_csv_calls_simps)
        then show ?thesis by blast
      next
        case None': None
        with Cons.prems rn Inr None em have "ingest w a cs di fs names' tr3 = (r, tr')"
          by (simp add: Let_def call_def)
        from Cons.IH[OF this] obtain evs where evs: "tr' = tr3 @ evs"
          "prefix (file_ops evs) (concat (map (\<lambda>f. [Read f, Closed f]) fs))"
          "prefix (from_csv_calls evs) (zip fs (assigned_names names' fs))"
          by blast
        with tevs tp have "?goal ([?ev1, CloseInput f] @ tevs @ evs)"
          by (simp add: an file_ops_append from_csv_calls_append file_ops_simps
                from_csv_calls_simps)
        then show ?thesis by blast
      qed
    qed
  qed
qed

text \<open>The stages of a run, whatever its outcome: connection, loop, queries and commit.\<close>

lemma pipeline_stages:
  assumes "pipeline w a fs tr = (r, tr')"
  shows "\<exists>conn ing fin. tr' = tr @ conn @ ing @ fin \<and> list_all is_conn conn \<and>
           list_all (\<lambda>ev. is_query ev \<or> is_final ev) fin \<and>
           ((ing = [] \<and> fin = []) \<or>
            (\<exists>r2. ingest w a (fst (effective a)) (snd (effective a)) fs (explicit_names a)
                              (tr @ conn) = (r2, tr @ conn @ ing) \<and> (r2 \<noteq> None \<longrightarrow> fin = [])))"
proof -
  let ?F = "\<lambda>ev. is_query ev \<or> is_final ev"
  obtain cs di where eff: "effective a = (cs, di)" by (cases "effective a")
  let ?goal = "\<lambda>conn ing fin. tr' = tr @ conn @ ing @ fin \<and> list_all is_conn conn \<and>
           list_all ?F fin \<and>
           ((ing = [] \<and> fin = []) \<or>
            (\<exists>r2. ingest w a cs di fs (explicit_names a) (tr @ conn) = (r2, tr @ conn @ ing)
                  \<and> (r2 \<noteq> None \<longrightarrow> fin = [])))"
  have "\<exists>conn ing fin. ?goal conn ing fin"
  proof (cases "check_flags a cs di")
    case (Some e)
    with assms eff have "tr' = tr" by (simp add: pipeline_def)
    then have "?goal [] [] []" by simp
    then show ?thesis by blast
  next
    case cf: None
    obtain r1 tr1 where c: "(case cs of None \<Rightarrow> (None, tr)
         | Some c \<Rightarrow> if c \<noteq> [] then open_connection w c tr else (None, tr)) = (r1, tr1)"
      by (cases "case cs of None \<Rightarrow> (None, tr)
         | Some c \<Rightarrow> if c \<noteq> [] then open_connection w c tr else (None, tr)")
    then have "extends is_conn tr tr1"
      by (auto split: option.splits if_splits simp: extends_refl dest: open_connection_extends)
    then obtain conn where conn: "tr1 = tr @ conn" "list_all is_conn conn"
      by (auto simp: extends_def)
    show ?thesis
    proof (cases r1)
      case (Some e)
      with assms eff cf c have "tr' = tr1" by (simp add: pipeline_def and_then_def)
      with conn have "?goal conn [] []" by simp
      then show ?thesis by blast
    next
      case r1: None
      obtain r2 tr2 where i: "ingest w a cs di fs (explicit_names a) tr1 = (r2, tr2)"
        by (cases "ingest w a cs di fs (explicit_names a) tr1")
      from ingest_extends[OF i] obtain ing where ing: "tr2 = tr1 @ ing"
        by (auto simp: extends_def)
      with i conn have i': "ingest w a cs di fs (explicit_names a) (tr @ conn) = (r2, tr @ conn @ ing)"
        by simp
      show ?thesis
      proof (cases r2)
        case (Some e)
        with assms eff cf c r1 i have "tr' = tr2" by (simp add: pipeline_def and_then_def)
        with conn ing i' have "?goal conn ing []" by auto
        then show ?thesis by blast
      next
        case r2: None
        show ?thesis
        proof (cases "truthy_str cs")
          case False
          with assms eff cf c r1 i r2 have "tr' = tr2" by (simp add: pipeline_def and_then_def)
          with conn ing i' r2 have "?goal conn ing []" by auto
          then show ?thesis by blast
        next
          case live: True
          obtain r3 tr3 where q: "(case query a of None \<Rightarrow> (None, tr2)
               | Some q \<Rightarrow> if q \<noteq> [] then run_query w q tr2 else (None, tr2)) = (r3, tr3)"
            by (cases "case query a of None \<Rightarrow> (None, tr2)
               | Some q \<Rightarrow> if q \<noteq> [] then run_query w q tr2 else (None, tr2)")
          then have "extends is_query tr2 tr3"
            by (auto split: option.splits if_splits simp: extends_refl dest: run_query_extends)
          then obtain qevs where qevs: "tr3 = tr2 @ qevs" "list_all is_query qevs"
            by (auto simp: extends_def)
          then have qF: "list_all ?F qevs" by (auto simp: list_all_iff)
          have "\<exists>fin. tr' = tr2 @ fin \<and> list_all ?F fin"
          proof (cases r3)
            case (Some e)
            with assms eff cf c r1 i r2 live q have "tr' = tr3"
              by (simp add: pipeline_def and_then_def)
            with qevs qF show ?thesis by blast
          next
            case r3: None
            show ?thesis
            proof (cases "raises w tr3 Commit")
              case (Some e)
              with assms eff cf c r1 i r2 live q r3 have "tr' = tr2 @ (qevs @ [Commit])"
                by (simp add: pipeline_def and_then_def call_def qevs)
              moreover from qF have "list_all ?F (qevs @ [Commit])" by simp
              ultimately show ?thesis by blast
            next
              case None
              with assms eff cf c r1 i r2 live q r3
              have "tr' = tr2 @ (qevs @ [Commit, CloseConnection])"
                by (simp add: pipeline_def and_then_def call_def qevs)
              moreover from qF have "list_all ?F (qevs @ [Commit, CloseConnection])" by simp
              ultimately show ?thesis by blast
            qed
          qed
          then obtain fin where "tr' = tr2 @ fin" "list_all ?F fin" by blast
          with conn ing i' r2 have "?goal conn ing fin" by auto
          then show ?thesis by blast
        qed
      qed
    qed
  qed
  with eff show ?thesis by simp
qed

lemma main_prefix:
  assumes "main w a = (r, tr)"
      and "open_input_files w (input_paths a) [] = (Inr fs, tr0)"
  shows "take (length fs) tr = opened (input_paths a) fs \<and>
         prefix (file_ops tr) (map Opened fs @ concat (map (\<lambda>f. [Read f, Closed f]) fs)) \<and>
         prefix (from_csv_calls tr) (zip fs (assigned_names (explicit_names a) fs))"
proof -
  from open_input_files_ok[OF assms(2)] have len: "length fs = length (input_paths a)"
    and tr0: "tr0 = opened (input_paths a) fs" by simp_all
  from assms have "pipeline w a fs tr0 = (r, tr)" by (simp add: main_def)
  from pipeline_stages[OF this] obtain conn ing fin
    where tr: "tr = tr0 @ conn @ ing @ fin"
      and kinds: "list_all is_conn conn" "list_all (\<lambda>ev. is_query ev \<or> is_final ev) fin"
      and ing: "ing = [] \<or> (\<exists>r2. ingest w a (fst (effective a)) (snd (effective a)) fs
                                  (explicit_names a) (tr0 @ conn) = (r2, tr0 @ conn @ ing))"
    by blast
  have p: "prefix (file_ops ing) (concat (map (\<lambda>f. [Read f, Closed f]) fs)) \<and>
           prefix (from_csv_calls ing) (zip fs (assigned_names (explicit_names a) fs))"
  proof (cases "ing = []")
    case True
    then show ?thesis by (simp add: file_ops_simps from_csv_calls_simps)
  next
    case False
    with ing obtain r2 where "ingest w a (fst (effective a)) (snd (effective a)) fs
        (explicit_names a) (tr0 @ conn) = (r2, tr0 @ conn @ ing)"
      by blast
    from ingest_prefix[OF this] show ?thesis by simp
  qed
  from len have lo: "length (opened (input_paths a) fs) = length fs"
    by (rule length_opened)
  from tr tr0 lo have 1: "take (length fs) tr = opened (input_paths a) fs" by simp
  from p opened_projections[OF len] conn_projections[OF kinds(1)] fin_projections[OF kinds(2)]
  have 2: "prefix (file_ops tr) (map Opened fs @ concat (map (\<lambda>f. [Read f, Closed f]) fs))"
    and 3: "prefix (from_csv_calls tr) (zip fs (assigned_names (explicit_names a) fs))"
    by (simp_all add: tr tr0 file_ops_append from_csv_calls_append)
  from 1 2 3 show ?thesis by simp
qed

subsection \<open>Closing follows reading\<close>

lemma closes_follow_skip: "\<not> is_from_csv ev \<Longrightarrow> closes_follow (ev # evs) = closes_follow evs"
  by (cases ev) simp_all

lemma closes_follow_others:
  "list_all (\<lambda>ev. \<not> is_from_csv ev) xs \<Longrightarrow> closes_follow (xs @ ys) = closes_follow ys"
  by (induction xs) (simp_all add: closes_follow_skip)

lemma is_open_not_from_csv: "is_open ev \<Longrightarrow> \<not> is_from_csv ev"
  by (cases ev) simp_all

lemma is_conn_not_from_csv: "is_conn ev \<Longrightarrow> \<not> is_from_csv ev"
  by (cases ev) simp_all

lemma is_table_not_from_csv: "is_table ev \<Longrightarrow> \<not> is_from_csv ev"
  by (cases ev) simp_all

lemma is_fin_not_from_csv: "is_query ev \<or> is_final ev \<Longrightarrow> \<not> is_from_csv ev"
  by (cases ev) simp_all

lemma list_all_weaken: "list_all P xs \<Longrightarrow> (\<And>x. P x \<Longrightarrow> Q x) \<Longrightarrow> list_all Q xs"
  by (auto simp: list_all_iff)

text \<open>
  In what the loop causes, whatever its outcome, the closing follows each inference that
  returns; and after a loop that returns normally the property depends on the rest only.
\<close>

lemma ingest_closes:
  "ingest w a cs di fs names tr = (r, tr') \<Longrightarrow>
   \<exists>evs. tr' = tr @ evs \<and> closes_follow evs \<and>
         (r = None \<longrightarrow> (\<forall>rest. closes_follow (evs @ rest) = closes_follow rest))"
proof (induction fs arbitrary: names tr)
  case Nil
  then show ?case by simp
next
  case (Cons f fs)
  obtain n names' where rn: "resolve_name names f = (n, names')"
    by (cases "resolve_name names f") auto
  let ?r = "from_csv w tr f n (sniff_limit a) (\<not> blanks a) (\<not> no_inference a) (no_header_row a)"
  let ?tr1 = "tr @ [FromCsv f n ?r]"
  let ?goal = "\<lambda>evs. tr' = tr @ evs \<and> closes_follow evs \<and>
         (r = None \<longrightarrow> (\<forall>rest. closes_follow (evs @ rest) = closes_follow rest))"
  show ?case
  proof (cases ?r)
    case (Inl e)
    with Cons.prems rn have "tr' = ?tr1" "r = Some e" by (simp_all add: Let_def)
    with Inl have "?goal [FromCsv f n (Inl e)]" by simp
    then show ?thesis by blast
  next
    case (Inr t)
    let ?tr2 = "?tr1 @ [CloseInput f]"
    show ?thesis
    proof (cases "raises w ?tr1 (CloseInput f)")
      case (Some e)
      with Cons.prems rn Inr have "tr' = ?tr2" "r = Some e" by (simp_all add: Let_def call_def)
      with Inr have "?goal [FromCsv f n (Inr t), CloseInput f]" by simp
      then show ?thesis by blast
    next
      case None
      obtain r3 tr3 where em: "emit w a cs di t n ?tr2 = (r3, tr3)"
        by (cases "emit w a cs di t n ?tr2") auto
      from emit_extends[OF em] obtain tevs where tevs: "tr3 = ?tr2 @ tevs" "list_all is_table tevs"
        by (auto simp: extends_def)
      from tevs(2) have "list_all (\<lambda>ev. \<not> is_from_csv ev) tevs"
        by (rule list_all_weaken) (rule is_table_not_from_csv)
      then have sk: "closes_follow (tevs @ ys) = closes_follow ys" for ys
        by (rule closes_follow_others)
      show ?thesis
      proof (cases r3)
        case (Some e)
        with Cons.prems rn Inr None em have "tr' = tr3" "r = Some e"
          by (simp_all add: Let_def call_def)
        with tevs Inr sk[of "[]"] have "?goal ([FromCsv f n (Inr t), CloseInput f] @ tevs)"
          by simp
        then show ?thesis by blast
      next
        case None': None
        with Cons.prems rn Inr None em have "ingest w a cs di fs names' tr3 = (r, tr')"
          by (simp add: Let_def call_def)
        from Cons.IH[OF this] obtain evs where evs: "tr' = tr3 @ evs" "closes_follow evs"
          "r = None \<longrightarrow> (\<forall>rest. closes_follow (evs @ rest) = closes_follow rest)"
          by blast
        with tevs Inr sk have "?goal ([FromCsv f n (Inr t), CloseInput f] @ tevs @ evs)"
          by simp
        then show ?thesis by blast
      qed
    qed
  qed
qed

lemma main_closes:
  assumes "main w a = (r, tr)"
  shows "closes_follow tr"
proof -
  obtain r0 tr0 where o: "open_input_files w (input_paths a) [] = (r0, tr0)"
    by (cases "open_input_files w (input_paths a) []")
  from open_input_files_events[OF o] have "list_all is_open tr0" by simp
  then have n0: "list_all (\<lambda>ev. \<not> is_from_csv ev) tr0"
    by (rule list_all_weaken) (rule is_open_not_from_csv)
  show ?thesis
  proof (cases r0)
    case (Inl e)
    with assms o have "tr = tr0" by (simp add: main_def)
    with closes_follow_others[OF n0, of "[]"] show ?thesis by simp
  next
    case (Inr fs)
    with assms o have "pipeline w a fs tr0 = (r, tr)" by (simp add: main_def)
    from pipeline_stages[OF this] obtain conn ing fin
      where tr: "tr = tr0 @ conn @ ing @ fin"
        and kinds: "list_all is_conn conn" "list_all (\<lambda>ev. is_query ev \<or> is_final ev) fin"
        and ing: "(ing = [] \<and> fin = []) \<or>
            (\<exists>r2. ingest w a (fst (effective a)) (snd (effective a)) fs (explicit_names a)
                              (tr0 @ conn) = (r2, tr0 @ conn @ ing) \<and> (r2 \<noteq> None \<longrightarrow> fin = []))"
      by blast
    from kinds(1) have nc: "list_all (\<lambda>ev. \<not> is_from_csv ev) conn"
      by (rule list_all_weaken) (rule is_conn_not_from_csv)
    from kinds(2) have "list_all (\<lambda>ev. \<not> is_from_csv ev) fin"
      by (rule list_all_weaken) (rule is_fin_not_from_csv)
    from closes_follow_others[OF this, of "[]"] have cfin: "closes_follow fin" by simp
    have "closes_follow (ing @ fin)"
      using ing
    proof
      assume "ing = [] \<and> fin = []"
      then show ?thesis by simp
    next
      assume "\<exists>r2. ingest w a (fst (effective a)) (snd (effective a)) fs (explicit_names a)
                              (tr0 @ conn) = (r2, tr0 @ conn @ ing) \<and> (r2 \<noteq> None \<longrightarrow> fin = [])"
      then obtain r2 where i: "ingest w a (fst (effective a)) (snd (effective a)) fs (explicit_names a)
                              (tr0 @ conn) = (r2, tr0 @ conn @ ing)"
        and f: "r2 \<noteq> None \<longrightarrow> fin = []"
        by blast
      from ingest_closes[OF i] have c: "closes_follow ing"
        and k: "r2 = None \<longrightarrow> (\<forall>rest. closes_follow (ing @ rest) = closes_follow rest)"
        by simp_all
      show ?thesis
      proof (cases r2)
        case None
        with k cfin show ?thesis by simp
      next
        case (Some e)
        with f c show ?thesis by simp
      qed
    qed
    with closes_follow_others[OF n0, of "conn @ ing @ fin"]
         closes_follow_others[OF nc, of "ing @ fin"] tr
    show ?thesis by simp
  qed
qed

text \<open>What \<open>closes_follow\<close> says about each inference in a sequence of events.\<close>

lemma closes_follow_at:
  "closes_follow tr \<Longrightarrow> tr = pre @ FromCsv f n res # post \<Longrightarrow>
   (case res of Inl e \<Rightarrow> post = [] | Inr t \<Rightarrow> \<exists>post'. post = CloseInput f # post')"
proof (induction "length pre" arbitrary: pre tr rule: less_induct)
  case less
  show ?case
  proof (cases pre)
    case Nil
    with less.prems show ?thesis
      by (cases res) (auto split: list.splits)
  next
    case (Cons x pre')
    with less.prems have tr: "tr = x # pre' @ FromCsv f n res # post" by simp
    show ?thesis
    proof (cases "is_from_csv x")
      case False
      with less.prems(1) tr have "closes_follow (pre' @ FromCsv f n res # post)"
        by (simp add: closes_follow_skip)
      from less.hyps[OF _ this refl] Cons show ?thesis by simp
    next
      case True
      then obtain f' n' res' where x: "x = FromCsv f' n' res'" by (cases x) auto
      show ?thesis
      proof (cases res')
        case (Inl e)
        with less.prems(1) tr x show ?thesis by simp
      next
        case (Inr t)
        with less.prems(1) tr x obtain pre'' where p: "pre' = CloseInput f' # pre''"
          and c: "closes_follow (pre'' @ FromCsv f n res # post)"
          by (cases pre') (auto split: list.splits)
        from p Cons have "length pre'' < length pre" by simp
        from less.hyps[OF this c refl] show ?thesis .
      qed
    qed
  qed
qed

subsection \<open>The input handles\<close>

text \<open>
  C1, as stated, fails: with two input files, both are open once lines 49 to 52 have run,
  before anything is read.
\<close>

theorem one_open_handle_counterexample:
  "main world0 (args0\<lparr>input_paths := [''a.csv'', ''b.csv'']\<rparr>)
   = (None,
      [OpenInput ''a.csv'' (Inr (File ''a.csv'')), OpenInput ''b.csv'' (Inr (File ''b.csv'')),
       FromCsv (File ''a.csv'') ''a'' (Inr table1), CloseInput (File ''a.csv''),
       MakeTable ''a'' False None, WriteOutput (''CREATE TABLE a (id INTEGER);'' @ [CHR 0x0A]),
       FromCsv (File ''b.csv'') ''b'' (Inr table1), CloseInput (File ''b.csv''),
       MakeTable ''b'' False None, WriteOutput (''CREATE TABLE b (id INTEGER);'' @ [CHR 0x0A])]) \<and>
   open_handles (take 2 (snd (main world0 (args0\<lparr>input_paths := [''a.csv'', ''b.csv'']\<rparr>))))
   = [File ''a.csv'', File ''b.csv'']"
  by (simp add: run_defs open_handles_def)

text \<open>
  C1, amended: in every run whose input paths all open, all the inputs are opened first,
  in input order, before any other event, so that all of them are open at once; after
  that each source is read by the inference and closed immediately: the closing is the
  very next event after the inference has returned, before any table is made or any
  statement written for the source and before the next source is read (up to where the
  run ends; a run that returns normally reads and closes every source).
\<close>

theorem inputs_opened_first_closed_in_turn:
  assumes "main w a = (r, tr)"
      and "open_input_files w (input_paths a) [] = (Inr fs, tr0)"
  shows "take (length fs) tr = opened (input_paths a) fs \<and>
         open_handles (take (length fs) tr) = fs \<and>
         (\<forall>pre f n t post. tr = pre @ FromCsv f n (Inr t) # post \<longrightarrow>
            (\<exists>post'. post = CloseInput f # post')) \<and>
         (\<forall>pre f n e post. tr = pre @ FromCsv f n (Inl e) # post \<longrightarrow> post = []) \<and>
         prefix (file_ops tr) (map Opened fs @ concat (map (\<lambda>f. [Read f, Closed f]) fs)) \<and>
         (r = None \<longrightarrow> file_ops tr = map Opened fs @ concat (map (\<lambda>f. [Read f, Closed f]) fs))"
proof -
  from open_input_files_ok[OF assms(2)] have len: "length fs = length (input_paths a)"
    by simp
  from main_prefix[OF assms] have 1: "take (length fs) tr = opened (input_paths a) fs"
    and 3: "prefix (file_ops tr) (map Opened fs @ concat (map (\<lambda>f. [Read f, Closed f]) fs))"
    by simp_all
  from open_handles_opened[OF len, of "[]"] 1 have 2: "open_handles (take (length fs) tr) = fs"
    by (simp add: open_handles_def)
  have 4: "r = None \<longrightarrow> file_ops tr = map Opened fs @ concat (map (\<lambda>f. [Read f, Closed f]) fs)"
  proof
    assume "r = None"
    with assms(1) have m: "main w a = (None, tr)" by simp
    from main_ok_opened[OF m assms(2)] obtain ts conn fin
      where lts: "length ts = length fs"
        and tr: "tr = opened (input_paths a) fs @ conn
                  @ concat (map (source_events w a (fst (effective a)) (snd (effective a)))
                              (zip fs (zip (assigned_names (explicit_names a) fs) ts)))
                  @ fin"
        and kinds: "list_all is_conn conn" "list_all (\<lambda>ev. is_query ev \<or> is_final ev) fin"
      by blast
    have z: "map fst (zip fs (zip (assigned_names (explicit_names a) fs) ts)) = fs"
      using lts by (intro zip3_projections(1)) (simp_all add: length_assigned_names)
    show "file_ops tr = map Opened fs @ concat (map (\<lambda>f. [Read f, Closed f]) fs)"
      using opened_projections[OF len] conn_projections[OF kinds(1)] fin_projections[OF kinds(2)]
      by (simp add: tr file_ops_append sources_file_ops z)
  qed
  from main_closes[OF assms(1)] have cf: "closes_follow tr" .
  have 5: "\<forall>pre f n t post. tr = pre @ FromCsv f n (Inr t) # post \<longrightarrow>
            (\<exists>post'. post = CloseInput f # post')"
  proof (intro allI impI)
    fix pre f n t post
    assume "tr = pre @ FromCsv f n (Inr t) # post"
    from closes_follow_at[OF cf this] show "\<exists>post'. post = CloseInput f # post'" by simp
  qed
  have 6: "\<forall>pre f n e post. tr = pre @ FromCsv f n (Inl e) # post \<longrightarrow> post = []"
  proof (intro allI impI)
    fix pre f n e post
    assume "tr = pre @ FromCsv f n (Inl e) # post"
    from closes_follow_at[OF cf this] show "post = []" by simp
  qed
  from 1 2 3 4 5 6 show ?thesis by simp
qed

theorem inputs_opened_first_closed_in_turn_witness:
  "main world0 (args0\<lparr>input_paths := [''a.csv'', ''b.csv'']\<rparr>)
   = (None,
      [OpenInput ''a.csv'' (Inr (File ''a.csv'')), OpenInput ''b.csv'' (Inr (File ''b.csv'')),
       FromCsv (File ''a.csv'') ''a'' (Inr table1), CloseInput (File ''a.csv''),
       MakeTable ''a'' False None, WriteOutput (''CREATE TABLE a (id INTEGER);'' @ [CHR 0x0A]),
       FromCsv (File ''b.csv'') ''b'' (Inr table1), CloseInput (File ''b.csv''),
       MakeTable ''b'' False None, WriteOutput (''CREATE TABLE b (id INTEGER);'' @ [CHR 0x0A])]) \<and>
   file_ops (snd (main world0 (args0\<lparr>input_paths := [''a.csv'', ''b.csv'']\<rparr>)))
   = [Opened (File ''a.csv''), Opened (File ''b.csv''),
      Read (File ''a.csv''), Closed (File ''a.csv''),
      Read (File ''b.csv''), Closed (File ''b.csv'')] \<and>
   closes_follow (snd (main world0 (args0\<lparr>input_paths := [''a.csv'', ''b.csv'']\<rparr>)))"
proof -
  let ?a = "args0\<lparr>input_paths := [''a.csv'', ''b.csv'']\<rparr>"
  let ?tr = "[OpenInput ''a.csv'' (Inr (File ''a.csv'')), OpenInput ''b.csv'' (Inr (File ''b.csv'')),
       FromCsv (File ''a.csv'') ''a'' (Inr table1), CloseInput (File ''a.csv''),
       MakeTable ''a'' False None, WriteOutput (''CREATE TABLE a (id INTEGER);'' @ [CHR 0x0A]),
       FromCsv (File ''b.csv'') ''b'' (Inr table1), CloseInput (File ''b.csv''),
       MakeTable ''b'' False None, WriteOutput (''CREATE TABLE b (id INTEGER);'' @ [CHR 0x0A])]"
  have m: "main world0 ?a = (None, ?tr)"
    by (simp add: run_defs)
  have o: "open_input_files world0 (input_paths ?a) []
           = (Inr [File ''a.csv'', File ''b.csv''],
              [OpenInput ''a.csv'' (Inr (File ''a.csv'')), OpenInput ''b.csv'' (Inr (File ''b.csv''))])"
    by (simp add: world0_def args0_def)
  from inputs_opened_first_closed_in_turn[OF m o]
  have "file_ops ?tr = map Opened [File ''a.csv'', File ''b.csv'']
          @ concat (map (\<lambda>f. [Read f, Closed f]) [File ''a.csv'', File ''b.csv''])"
    by simp
  moreover have "closes_follow ?tr" by simp
  ultimately show ?thesis using m by simp
qed

subsection \<open>The table names\<close>

text \<open>
  C6: with \<open>M\<close> explicit names for \<open>N \<ge> M\<close> sources, the inference is called for the
  sources in input order, once each, the first \<open>M\<close> sources with the explicit names in
  their order and each later source with its fallback name. The explicit names are the
  parts of the \<open>--tables\<close> string between its commas (none when the option is absent or
  empty). The fallback name is \<open>stdin\<close> for standard input; for a file it is the name
  without its directory and without its extension, the extension being what follows the
  last dot unless only dots come before it. A run that ends with an exception has called
  the inference for an initial part of the sources, a run that returns normally for all
  of them.
\<close>

theorem table_names_in_order:
  assumes "main w a = (r, tr)"
      and "open_input_files w (input_paths a) [] = (Inr fs, tr0)"
      and "length (explicit_names a) \<le> length fs"
  shows "prefix (from_csv_calls tr)
           (zip fs (explicit_names a @ map fallback_name (drop (length (explicit_names a)) fs))) \<and>
         (r = None \<longrightarrow> from_csv_calls tr
            = zip fs (explicit_names a @ map fallback_name (drop (length (explicit_names a)) fs))) \<and>
         (\<forall>s. table_names a = Some s \<and> s \<noteq> [] \<longrightarrow>
            join_str (CHR '','') (explicit_names a) = s \<and>
            (\<forall>n \<in> set (explicit_names a). CHR '','' \<notin> set n)) \<and>
         (table_names a = None \<or> table_names a = Some [] \<longrightarrow> explicit_names a = []) \<and>
         fallback_name Stdin = ''stdin'' \<and>
         (\<forall>dir base. CHR ''/'' \<notin> set base \<longrightarrow>
            fallback_name (File (dir @ CHR ''/'' # base)) = fallback_name (File base)) \<and>
         (\<forall>stem ext. CHR ''/'' \<notin> set stem \<and> CHR ''/'' \<notin> set ext \<and> CHR ''.'' \<notin> set ext
              \<and> (\<exists>c \<in> set stem. c \<noteq> CHR ''.'') \<longrightarrow>
            fallback_name (File (stem @ CHR ''.'' # ext)) = stem) \<and>
         (\<forall>dots ext. CHR ''/'' \<notin> set ext \<and> CHR ''.'' \<notin> set ext \<and> (\<forall>c \<in> set dots. c = CHR ''.'') \<longrightarrow>
            fallback_name (File (dots @ CHR ''.'' # ext)) = dots @ CHR ''.'' # ext) \<and>
         (\<forall>base. CHR ''/'' \<notin> set base \<and> CHR ''.'' \<notin> set base \<longrightarrow> fallback_name (File base) = base)"
proof -
  from open_input_files_ok[OF assms(2)] have len: "length fs = length (input_paths a)"
    by simp
  from assms(3)
  have an: "assigned_names (explicit_names a) fs
        = explicit_names a @ map fallback_name (drop (length (explicit_names a)) fs)"
    by (simp add: assigned_names_def)
  from main_prefix[OF assms(1,2)]
  have "prefix (from_csv_calls tr) (zip fs (assigned_names (explicit_names a) fs))"
    by simp
  with an have 1: "prefix (from_csv_calls tr)
           (zip fs (explicit_names a @ map fallback_name (drop (length (explicit_names a)) fs)))"
    by simp
  have 2: "r = None \<longrightarrow> from_csv_calls tr
            = zip fs (explicit_names a @ map fallback_name (drop (length (explicit_names a)) fs))"
  proof
    assume "r = None"
    with assms(1) have m: "main w a = (None, tr)" by simp
    from main_ok_opened[OF m assms(2)] obtain ts conn fin
      where lts: "length ts = length fs"
        and tr: "tr = opened (input_paths a) fs @ conn
                  @ concat (map (source_events w a (fst (effective a)) (snd (effective a)))
                              (zip fs (zip (assigned_names (explicit_names a) fs) ts)))
                  @ fin"
        and kinds: "list_all is_conn conn" "list_all (\<lambda>ev. is_query ev \<or> is_final ev) fin"
      by blast
    have z: "map (\<lambda>x. (fst x, fst (snd x))) (zip fs (zip (assigned_names (explicit_names a) fs) ts))
             = zip fs (assigned_names (explicit_names a) fs)"
      using lts by (intro zip3_projections(3)) (simp_all add: length_assigned_names)
    have "from_csv_calls tr = zip fs (assigned_names (explicit_names a) fs)"
      using opened_projections[OF len] conn_projections[OF kinds(1)] fin_projections[OF kinds(2)]
      by (simp add: tr from_csv_calls_append sources_from_csv_calls z)
    with an show "from_csv_calls tr
            = zip fs (explicit_names a @ map fallback_name (drop (length (explicit_names a)) fs))"
      by simp
  qed
  have 3: "\<forall>s. table_names a = Some s \<and> s \<noteq> [] \<longrightarrow>
            join_str (CHR '','') (explicit_names a) = s \<and>
            (\<forall>n \<in> set (explicit_names a). CHR '','' \<notin> set n)"
    using explicit_names_split[of a] by blast
  have 4: "table_names a = None \<or> table_names a = Some [] \<longrightarrow> explicit_names a = []"
    using explicit_names_none[of a] by blast
  have 5: "fallback_name Stdin = ''stdin''"
    by (simp add: fallback_name_def)
  have 6: "\<forall>dir base. CHR ''/'' \<notin> set base \<longrightarrow>
            fallback_name (File (dir @ CHR ''/'' # base)) = fallback_name (File base)"
    by (simp add: fallback_name_dir)
  have 7: "\<forall>stem ext. CHR ''/'' \<notin> set stem \<and> CHR ''/'' \<notin> set ext \<and> CHR ''.'' \<notin> set ext
              \<and> (\<exists>c \<in> set stem. c \<noteq> CHR ''.'') \<longrightarrow>
            fallback_name (File (stem @ CHR ''.'' # ext)) = stem"
    using fallback_name_ext by blast
  have 8: "\<forall>dots ext. CHR ''/'' \<notin> set ext \<and> CHR ''.'' \<notin> set ext \<and> (\<forall>c \<in> set dots. c = CHR ''.'') \<longrightarrow>
            fallback_name (File (dots @ CHR ''.'' # ext)) = dots @ CHR ''.'' # ext"
    using fallback_name_dots by blast
  have 9: "\<forall>base. CHR ''/'' \<notin> set base \<and> CHR ''.'' \<notin> set base \<longrightarrow> fallback_name (File base) = base"
    by (simp add: fallback_name_plain)
  from 1 2 3 4 5 6 7 8 9 show ?thesis by blast
qed

theorem table_names_in_order_witness:
  "explicit_names (args0\<lparr>input_paths := [''data/a.csv'', ''/tmp/x/b.tar.gz'', ''out.d/c.csv'', ''-''],
                         table_names := Some ''x,y''\<rparr>) = [''x'', ''y''] \<and>
   from_csv_calls (snd (main world0
     (args0\<lparr>input_paths := [''data/a.csv'', ''/tmp/x/b.tar.gz'', ''out.d/c.csv'', ''-''],
            table_names := Some ''x,y''\<rparr>)))
   = [(File ''data/a.csv'', ''x''), (File ''/tmp/x/b.tar.gz'', ''y''),
      (File ''out.d/c.csv'', ''c''), (Stdin, ''stdin'')]"
proof -
  let ?a = "args0\<lparr>input_paths := [''data/a.csv'', ''/tmp/x/b.tar.gz'', ''out.d/c.csv'', ''-''],
                   table_names := Some ''x,y''\<rparr>"
  let ?fs = "[File ''data/a.csv'', File ''/tmp/x/b.tar.gz'', File ''out.d/c.csv'', Stdin]"
  let ?tr = "[OpenInput ''data/a.csv'' (Inr (File ''data/a.csv'')),
       OpenInput ''/tmp/x/b.tar.gz'' (Inr (File ''/tmp/x/b.tar.gz'')),
       OpenInput ''out.d/c.csv'' (Inr (File ''out.d/c.csv'')),
       OpenInput ''-'' (Inr Stdin),
       FromCsv (File ''data/a.csv'') ''x'' (Inr table1), CloseInput (File ''data/a.csv''),
       MakeTable ''x'' False None, WriteOutput (''CREATE TABLE x (id INTEGER);'' @ [CHR 0x0A]),
       FromCsv (File ''/tmp/x/b.tar.gz'') ''y'' (Inr table1), CloseInput (File ''/tmp/x/b.tar.gz''),
       MakeTable ''y'' False None, WriteOutput (''CREATE TABLE y (id INTEGER);'' @ [CHR 0x0A]),
       FromCsv (File ''out.d/c.csv'') ''c'' (Inr table1), CloseInput (File ''out.d/c.csv''),
       MakeTable ''c'' False None, WriteOutput (''CREATE TABLE c (id INTEGER);'' @ [CHR 0x0A]),
       FromCsv Stdin ''stdin'' (Inr table1), CloseInput Stdin,
       MakeTable ''stdin'' False None, WriteOutput (''CREATE TABLE stdin (id INTEGER);'' @ [CHR 0x0A])]"
  have e: "explicit_names ?a = [''x'', ''y'']"
    by (simp add: explicit_names_def args0_def)
  have m: "main world0 ?a = (None, ?tr)"
    by (simp add: run_defs)
  have o: "open_input_files world0 (input_paths ?a) []
           = (Inr ?fs,
              [OpenInput ''data/a.csv'' (Inr (File ''data/a.csv'')),
               OpenInput ''/tmp/x/b.tar.gz'' (Inr (File ''/tmp/x/b.tar.gz'')),
               OpenInput ''out.d/c.csv'' (Inr (File ''out.d/c.csv'')),
               OpenInput ''-'' (Inr Stdin)])"
    by (simp add: world0_def args0_def)
  have l: "length (explicit_names ?a) \<le> length ?fs"
    by (simp add: e)
  from table_names_in_order[OF m o l]
  have "from_csv_calls ?tr
        = zip ?fs (explicit_names ?a @ map fallback_name (drop (length (explicit_names ?a)) ?fs))"
    by blast
  then have "from_csv_calls ?tr
        = [(File ''data/a.csv'', ''x''), (File ''/tmp/x/b.tar.gz'', ''y''),
           (File ''out.d/c.csv'', fallback_name (File ''out.d/c.csv'')), (Stdin, fallback_name Stdin)]"
    by (simp add: e)
  moreover have "fallback_name (File ''out.d/c.csv'') = ''c''" "fallback_name Stdin = ''stdin''"
    by (simp_all add: fallback_name_def os_path_split_tail_def os_path_splitext_root_def rfind_def)
  ultimately show ?thesis using m e by simp
qed

subsection \<open>Static mode\<close>

text \<open>
  C9: in a run without \<open>--db\<close> and without \<open>--query\<close> that returns normally, every
  source has been read, in input order, and the output stream holds exactly the
  \<open>CREATE\<close> statements, each followed by a newline, of the sources whose inferred table is
  non-empty, in input order.
\<close>

theorem static_output:
  assumes "\<not> truthy_str (connection_string a)" and "\<not> truthy_str (query a)"
      and "main w a = (None, tr)"
  shows "\<exists>fs ts. open_input_files w (input_paths a) [] = (Inr fs, opened (input_paths a) fs) \<and>
           length fs = length (input_paths a) \<and> length ts = length fs \<and>
           filter is_from_csv tr
           = map (\<lambda>(f, n, t). FromCsv f n (Inr t))
                 (zip fs (zip (assigned_names (explicit_names a) fs) ts)) \<and>
           written tr
           = map (\<lambda>(n, t). WriteOutput (make_create_table_statement w t n (no_constraints a) (dialect a) @ [CHR 0x0A]))
                 (filter (\<lambda>(n, t). truthy t) (zip (assigned_names (explicit_names a) fs) ts))"
proof -
  from assms(1,2) have static: "\<not> truthy_str (fst (effective a))"
    by (simp add: effective_def)
  from main_ok[OF assms(3)] obtain fs ts conn fin
    where o: "open_input_files w (input_paths a) [] = (Inr fs, opened (input_paths a) fs)"
      and len: "length fs = length (input_paths a)" "length ts = length fs"
      and tr0: "tr = opened (input_paths a) fs @ conn
                @ concat (map (source_events w a (fst (effective a)) (snd (effective a)))
                            (zip fs (zip (assigned_names (explicit_names a) fs) ts)))
                @ fin"
      and e: "\<not> truthy_str (fst (effective a)) \<longrightarrow> conn = [] \<and> fin = []"
    by blast
  from tr0 e static
  have tr: "tr = opened (input_paths a) fs
                @ concat (map (source_events w a (fst (effective a)) (snd (effective a)))
                            (zip fs (zip (assigned_names (explicit_names a) fs) ts)))"
    by simp
  have z: "map snd (zip fs (zip (assigned_names (explicit_names a) fs) ts))
           = zip (assigned_names (explicit_names a) fs) ts"
    using len(2) by (intro zip3_projections(2)) (simp_all add: length_assigned_names)
  have 1: "filter is_from_csv tr
           = map (\<lambda>(f, n, t). FromCsv f n (Inr t))
                 (zip fs (zip (assigned_names (explicit_names a) fs) ts))"
    using opened_projections[OF len(1)]
    by (simp add: tr sources_is_from_csv)
  have 2: "written tr
           = map (\<lambda>(n, t). WriteOutput (make_create_table_statement w t n (no_constraints a) (dialect a) @ [CHR 0x0A]))
                 (filter (\<lambda>(n, t). truthy t) (zip (assigned_names (explicit_names a) fs) ts))"
    using opened_projections[OF len(1)]
    by (simp add: tr written_append sources_written_static[OF static] z)
  from o len 1 2 show ?thesis by blast
qed

theorem static_output_witness:
  "written (snd (main world0 (args0\<lparr>input_paths := [''a.csv'', ''empty.csv'', ''b.csv'']\<rparr>)))
   = [WriteOutput (''CREATE TABLE a (id INTEGER);'' @ [CHR 0x0A]),
      WriteOutput (''CREATE TABLE b (id INTEGER);'' @ [CHR 0x0A])]"
proof -
  let ?a = "args0\<lparr>input_paths := [''a.csv'', ''empty.csv'', ''b.csv'']\<rparr>"
  let ?tr = "[OpenInput ''a.csv'' (Inr (File ''a.csv'')),
       OpenInput ''empty.csv'' (Inr (File ''empty.csv'')),
       OpenInput ''b.csv'' (Inr (File ''b.csv'')),
       FromCsv (File ''a.csv'') ''a'' (Inr table1), CloseInput (File ''a.csv''),
       MakeTable ''a'' False None, WriteOutput (''CREATE TABLE a (id INTEGER);'' @ [CHR 0x0A]),
       FromCsv (File ''empty.csv'') ''empty''
         (Inr \<lparr>truthy = False, count_rows = 0, headers = [], to_rows = []\<rparr>),
       CloseInput (File ''empty.csv''),
       FromCsv (File ''b.csv'') ''b'' (Inr table1), CloseInput (File ''b.csv''),
       MakeTable ''b'' False None, WriteOutput (''CREATE TABLE b (id INTEGER);'' @ [CHR 0x0A])]"
  have m: "main world0 ?a = (None, ?tr)"
    by (simp add: run_defs)
  have h: "\<not> truthy_str (connection_string ?a)" "\<not> truthy_str (query ?a)"
    by (simp_all add: args0_def truthy_str_def)
  from static_output[OF h m] have "\<exists>fs ts. length ts = length fs \<and> written ?tr
     = map (\<lambda>(n, t). WriteOutput (make_create_table_statement world0 t n (no_constraints ?a) (dialect ?a) @ [CHR 0x0A]))
           (filter (\<lambda>(n, t). truthy t) (zip (assigned_names (explicit_names ?a) fs) ts))"
    by blast
  moreover have "written ?tr = [WriteOutput (''CREATE TABLE a (id INTEGER);'' @ [CHR 0x0A]),
      WriteOutput (''CREATE TABLE b (id INTEGER);'' @ [CHR 0x0A])]"
    by (simp add: written_def)
  ultimately show ?thesis using m by simp
qed

subsection \<open>Empty and malformed inputs\<close>

lemma ingest_append:
  "ingest w a cs di (xs @ ys) names tr
   = (case ingest w a cs di xs names tr of
        (Some e, tr1) \<Rightarrow> (Some e, tr1)
      | (None, tr1) \<Rightarrow> ingest w a cs di ys (drop (length xs) names) tr1)"
proof (induction xs arbitrary: names tr)
  case Nil
  then show ?case by simp
next
  case (Cons x xs)
  have d: "drop (Suc (length xs)) names = drop (length xs) (snd (resolve_name names x))"
    by (simp add: resolve_name_tl drop_Suc)
  show ?case
    by (cases "resolve_name names x")
       (use d in \<open>auto simp: Cons.IH Let_def split: sum.splits option.splits prod.splits\<close>)
qed

text \<open>
  C3, as stated, fails: when the inference raises on an input, nothing catches the
  exception; the run ends there and the sources after it are not processed.
\<close>

theorem malformed_input_counterexample:
  "main world0 (args0\<lparr>input_paths := [''bad.csv'', ''b.csv'']\<rparr>)
   = (Some (OtherError ''DecodingError''),
      [OpenInput ''bad.csv'' (Inr (File ''bad.csv'')), OpenInput ''b.csv'' (Inr (File ''b.csv'')),
       FromCsv (File ''bad.csv'') ''bad'' (Inl (OtherError ''DecodingError''))])"
  by (simp add: run_defs)

text \<open>
  C3, amended: a source for which the inference returns an empty table is skipped
  silently wherever it stands among the inputs: the loop causes nothing for it but its
  reading and its closing (no table, no statement) and goes on with the sources after
  it. (It still takes the next explicit name.)
\<close>

theorem empty_source_skipped:
  assumes "ingest w a cs di xs names tr = (None, tr1)"
      and "resolve_name (drop (length xs) names) f = (n, names')"
      and "from_csv w tr1 f n (sniff_limit a) (\<not> blanks a) (\<not> no_inference a) (no_header_row a) = Inr t"
      and "\<not> truthy t"
      and "raises w (tr1 @ [FromCsv f n (Inr t)]) (CloseInput f) = None"
  shows "ingest w a cs di (xs @ f # ys) names tr
         = ingest w a cs di ys names' (tr1 @ [FromCsv f n (Inr t), CloseInput f])"
  using assms
  by (simp add: ingest_append emit_falsy call_def)

theorem empty_source_skipped_witness:
  "ingest world0 args0 None False [File ''a.csv'', File ''empty.csv'', File ''b.csv''] [] []
   = (None,
      [FromCsv (File ''a.csv'') ''a'' (Inr table1), CloseInput (File ''a.csv''),
       MakeTable ''a'' False None, WriteOutput (''CREATE TABLE a (id INTEGER);'' @ [CHR 0x0A]),
       FromCsv (File ''empty.csv'') ''empty''
         (Inr \<lparr>truthy = False, count_rows = 0, headers = [], to_rows = []\<rparr>),
       CloseInput (File ''empty.csv''),
       FromCsv (File ''b.csv'') ''b'' (Inr table1), CloseInput (File ''b.csv''),
       MakeTable ''b'' False None, WriteOutput (''CREATE TABLE b (id INTEGER);'' @ [CHR 0x0A])])"
proof -
  let ?e = "\<lparr>truthy = False, count_rows = 0, headers = [], to_rows = []\<rparr>"
  let ?tr1 = "[FromCsv (File ''a.csv'') ''a'' (Inr table1), CloseInput (File ''a.csv''),
       MakeTable ''a'' False None, WriteOutput (''CREATE TABLE a (id INTEGER);'' @ [CHR 0x0A])]"
  have 1: "ingest world0 args0 None False [File ''a.csv''] [] [] = (None, ?tr1)"
    by (simp add: run_defs)
  have 2: "resolve_name (drop (length [File ''a.csv'']) []) (File ''empty.csv'') = (''empty'', [])"
    by (simp add: run_defs)
  have 3: "from_csv world0 ?tr1 (File ''empty.csv'') ''empty'' (sniff_limit args0) (\<not> blanks args0)
             (\<not> no_inference args0) (no_header_row args0) = Inr ?e"
    by (simp add: world0_def)
  have 4: "\<not> truthy ?e" by simp
  have 5: "raises world0 (?tr1 @ [FromCsv (File ''empty.csv'') ''empty'' (Inr ?e)])
             (CloseInput (File ''empty.csv'')) = None"
    by (simp add: world0_def)
  from empty_source_skipped[OF 1 2 3 4 5, of "[File ''b.csv'']"]
  show ?thesis by (simp add: run_defs)
qed

end
